theory Spec2Isabelle
  imports Complex_Main "HOL-Library.Option_ord"
begin

section \<open>The search engine of \<^verbatim>\<open>monte_carlo_tree_search.py\<close>\<close>

text \<open>
  The exceptions the two modules can raise. \<^verbatim>\<open>math.log(0)\<close>, \<^verbatim>\<open>max\<close> of an empty
  sequence and the simulation's own check raise \<^verbatim>\<open>ValueError\<close>; a division by a zero
  visit count raises \<^verbatim>\<open>ZeroDivisionError\<close>; a failed \<^verbatim>\<open>assert\<close> raises
  \<^verbatim>\<open>AssertionError\<close>.
\<close>

datatype error = RuntimeError | ValueError | ZeroDivisionError | AssertionError
  | KeyError | IndexError

subsection \<open>Python floats\<close>

text \<open>
  A Python float is an IEEE 754 double: 53 significant bits, the exponent of a normal
  number at least -1022, smaller numbers on the fixed grid of the subnormals. A float is
  modelled by its value, a real number; an integer that takes part in the arithmetic (the
  \<^verbatim>\<open>0\<close> that a \<^verbatim>\<open>defaultdict(int)\<close> starts with, the \<^verbatim>\<open>1\<close> of \<^verbatim>\<open>1 - reward\<close>, a reward
  \<^verbatim>\<open>0\<close>, a visit count) by the float nearest to it, which is the integer itself up to
  \<open>2^53\<close>. Every operation returns the exact result rounded to the nearest double, a tie
  going to the double with the even significand. Infinities and NaN have no value here:
  the model does not follow a computation beyond the largest double, nor Python's exact
  arithmetic on integers beyond \<open>2^53\<close>.
\<close>

definition round_even :: "real \<Rightarrow> int" where
  "round_even x =
     (let f = \<lfloor>x\<rfloor>; d = x - of_int f in
      if d < 1 / 2 then f else if 1 / 2 < d then f + 1 else if even f then f else f + 1)"

definition binade :: "real \<Rightarrow> int" where
  "binade x = (if x = 0 then - 1022 else max \<lfloor>log 2 \<bar>x\<bar>\<rfloor> (- 1022))"

definition ulp :: "real \<Rightarrow> real" where
  "ulp x = 2 powi (binade x - 52)"

definition fl :: "real \<Rightarrow> real" where
  "fl x = of_int (round_even (x / ulp x)) * ulp x"

definition fadd :: "real \<Rightarrow> real \<Rightarrow> real" where
  "fadd x y = fl (x + y)"

definition fsub :: "real \<Rightarrow> real \<Rightarrow> real" where
  "fsub x y = fl (x - y)"

definition fmul :: "real \<Rightarrow> real \<Rightarrow> real" where
  "fmul x y = fl (x * y)"

definition fdiv :: "real \<Rightarrow> real \<Rightarrow> real" where
  "fdiv x y = fl (x / y)"

subsection \<open>The engine\<close>

text \<open>
  The abstract class \<^verbatim>\<open>Node\<close>: the engine reaches a state only through these four
  methods, so a game is a record of them over a state type \<open>'s\<close> (hashing and equality
  are HOL equality). A Python set is a list of its elements in iteration order.
  \<^verbatim>\<open>find_random_child\<close> takes the number that the game's random choice draws and
  returns \<open>None\<close> for Python's \<^verbatim>\<open>None\<close>; it may raise, as \<^verbatim>\<open>find_children\<close> and
  \<^verbatim>\<open>reward\<close> may. A reward is a Python float, given by its value.
\<close>

record 's node =
  find_children :: "'s \<Rightarrow> error + 's list"
  find_random_child :: "'s \<Rightarrow> nat \<Rightarrow> error + 's option"
  is_terminal :: "'s \<Rightarrow> bool"
  reward :: "'s \<Rightarrow> error + real"

text \<open>
  The class \<^verbatim>\<open>MCTS\<close>. \<^verbatim>\<open>Q\<close> and \<^verbatim>\<open>N\<close> are \<^verbatim>\<open>defaultdict(int)\<close>: a read of an
  absent key gives 0, so they are total functions; \<^verbatim>\<open>children\<close> is a plain dict.
  \<^verbatim>\<open>Q\<close> holds floats (an integer total, which rewards 0 and 1 alone give, as the float of
  the same value), \<^verbatim>\<open>N\<close> holds integers.
\<close>

record 's mcts =
  Q :: "'s \<Rightarrow> real"
  N :: "'s \<Rightarrow> nat"
  children :: "'s \<rightharpoonup> 's list"
  exploration_weight :: real

definition init :: "real \<Rightarrow> 's mcts" where
  "init w = \<lparr>Q = (\<lambda>_. 0), N = (\<lambda>_. 0), children = Map.empty, exploration_weight = w\<rparr>"

text \<open>
  Python's \<^verbatim>\<open>max(xs, key=f)\<close> on a non-empty sequence: the first element in iteration
  order whose key is greatest (a later element replaces the best only when its key is
  strictly greater).
\<close>

fun max_loop :: "('a \<Rightarrow> 'k::linorder) \<Rightarrow> 'a \<Rightarrow> 'a list \<Rightarrow> 'a" where
  "max_loop key best [] = best"
| "max_loop key best (x # xs) = max_loop key (if key best < key x then x else best) xs"

definition max_key :: "('a \<Rightarrow> 'k::linorder) \<Rightarrow> 'a list \<Rightarrow> error + 'a" where
  "max_key key xs = (case xs of [] \<Rightarrow> Inl ValueError | x # ys \<Rightarrow> Inr (max_loop key x ys))"

text \<open>
  The local function \<^verbatim>\<open>score\<close> of \<^verbatim>\<open>choose\<close> (\<open>choose_mcts\<close> below, as \<open>choose\<close>
  is the binomial coefficient). \<open>None\<close> is \<^verbatim>\<open>float("-inf")\<close>: in the order on
  \<open>real option\<close>, \<open>None\<close> lies below every \<open>Some x\<close>. The division is the float
  division of \<^verbatim>\<open>Q[n]\<close> by the float of \<^verbatim>\<open>N[n]\<close>.
\<close>

definition score :: "'s mcts \<Rightarrow> 's \<Rightarrow> real option" where
  "score e n = (if N e n = 0 then None else Some (fdiv (Q e n) (fl (real (N e n)))))"

definition choose_mcts :: "'s node \<Rightarrow> 's mcts \<Rightarrow> nat \<Rightarrow> 's \<Rightarrow> error + 's option" where
  "choose_mcts g e d nd =
     (if is_terminal g nd then Inl RuntimeError
      else case children e nd of
        None \<Rightarrow> find_random_child g nd d
      | Some cs \<Rightarrow> (case max_key (score e) cs of Inl err \<Rightarrow> Inl err | Inr c \<Rightarrow> Inr (Some c)))"

text \<open>
  \<^verbatim>\<open>_uct_select\<close>. The assertion comes first, then \<^verbatim>\<open>math.log(self.N[node])\<close>, which
  raises on 0, then \<^verbatim>\<open>max\<close>, whose key function divides by each child's visit count.
  \<^verbatim>\<open>math.sqrt\<close> and \<^verbatim>\<open>math.log\<close> are taken as correctly rounded.
\<close>

definition uct :: "'s mcts \<Rightarrow> real \<Rightarrow> 's \<Rightarrow> real" where
  "uct e log_N_vertex n =
     fadd (fdiv (Q e n) (fl (real (N e n))))
       (fmul (exploration_weight e) (fl (sqrt (fdiv log_N_vertex (fl (real (N e n)))))))"

definition uct_select :: "'s mcts \<Rightarrow> 's \<Rightarrow> error + 's" where
  "uct_select e nd =
     (case children e nd of
        None \<Rightarrow> Inl KeyError
      | Some cs \<Rightarrow>
          if \<not> (\<forall>n \<in> set cs. children e n \<noteq> None) then Inl AssertionError
          else if N e nd = 0 then Inl ValueError
          else if \<exists>n \<in> set cs. N e n = 0 then Inl ZeroDivisionError
          else max_key (uct e (fl (ln (fl (real (N e nd)))))) cs)"

text \<open>
  \<^verbatim>\<open>set.pop()\<close> removes an arbitrary element; the number \<open>k\<close> says which one.
\<close>

definition pop :: "nat \<Rightarrow> 'a list \<Rightarrow> 'a" where
  "pop k xs = xs ! (k mod length xs)"

text \<open>
  \<^verbatim>\<open>_select\<close>. The loop may run forever (a state graph with a cycle), so it has fuel,
  one unit for each iteration, and \<open>None\<close> is the loop that has not returned.
\<close>

fun select_loop :: "nat \<Rightarrow> nat \<Rightarrow> 's mcts \<Rightarrow> 's list \<Rightarrow> 's \<Rightarrow> (error + 's list) option" where
  "select_loop 0 k e path nd = None"
| "select_loop (Suc fuel) k e path nd =
     (case children e nd of
        None \<Rightarrow> Some (Inr (path @ [nd]))
      | Some cs \<Rightarrow>
          if cs = [] then Some (Inr (path @ [nd]))
          else let unexplored = filter (\<lambda>c. children e c = None) cs in
            if unexplored \<noteq> [] then Some (Inr (path @ [nd] @ [pop k unexplored]))
            else (case uct_select e nd of
              Inl err \<Rightarrow> Some (Inl err)
            | Inr n \<Rightarrow> select_loop fuel k e (path @ [nd]) n))"

definition select :: "nat \<Rightarrow> nat \<Rightarrow> 's mcts \<Rightarrow> 's \<Rightarrow> (error + 's list) option" where
  "select fuel k e nd = select_loop fuel k e [] nd"

definition expand :: "'s node \<Rightarrow> 's mcts \<Rightarrow> 's \<Rightarrow> error + 's mcts" where
  "expand g e nd =
     (if children e nd \<noteq> None then Inr e
      else case find_children g nd of
        Inl err \<Rightarrow> Inl err
      | Inr cs \<Rightarrow> Inr (e\<lparr>children := (children e)(nd \<mapsto> cs)\<rparr>))"

text \<open>
  \<^verbatim>\<open>_simulate\<close>. Every advance draws one number; the list holds the draws, and \<open>None\<close>
  is the walk that has used them all without reaching a terminal state.
\<close>

fun simulate_loop :: "'s node \<Rightarrow> nat list \<Rightarrow> bool \<Rightarrow> 's \<Rightarrow> (error + real) option" where
  "simulate_loop g ds invert_reward nd =
     (if is_terminal g nd then
        (case reward g nd of
           Inl err \<Rightarrow> Some (Inl err)
         | Inr r \<Rightarrow> Some (Inr (if invert_reward then fsub 1 r else r)))
      else case ds of
        [] \<Rightarrow> None
      | d # ds' \<Rightarrow>
          (case find_random_child g nd d of
             Inl err \<Rightarrow> Some (Inl err)
           | Inr None \<Rightarrow> Some (Inl ValueError)
           | Inr (Some next_node) \<Rightarrow> simulate_loop g ds' (\<not> invert_reward) next_node))"

definition simulate :: "'s node \<Rightarrow> nat list \<Rightarrow> 's \<Rightarrow> (error + real) option" where
  "simulate g ds nd = simulate_loop g ds True nd"

fun backpropagate_loop :: "'s mcts \<Rightarrow> 's list \<Rightarrow> real \<Rightarrow> 's mcts" where
  "backpropagate_loop e [] r = e"
| "backpropagate_loop e (nd # nds) r =
     backpropagate_loop (e\<lparr>N := (N e)(nd := N e nd + 1), Q := (Q e)(nd := fadd (Q e nd) r)\<rparr>)
       nds (fsub 1 r)"

definition backpropagate :: "'s mcts \<Rightarrow> 's list \<Rightarrow> real \<Rightarrow> 's mcts" where
  "backpropagate e path r = backpropagate_loop e (rev path) r"

text \<open>
  \<^verbatim>\<open>do_rollout\<close>. An exception ends the call with \<open>Inl\<close>; the engine it leaves behind
  is not modelled, as the program never catches one.
\<close>

definition do_rollout ::
  "'s node \<Rightarrow> nat \<Rightarrow> nat \<Rightarrow> nat list \<Rightarrow> 's mcts \<Rightarrow> 's \<Rightarrow> (error + 's mcts) option" where
  "do_rollout g fuel k ds e nd =
     (case select fuel k e nd of
        None \<Rightarrow> None
      | Some (Inl err) \<Rightarrow> Some (Inl err)
      | Some (Inr path) \<Rightarrow>
          let leaf = last path in
          (case expand g e leaf of
             Inl err \<Rightarrow> Some (Inl err)
           | Inr e1 \<Rightarrow>
               (case simulate g ds leaf of
                  None \<Rightarrow> None
                | Some (Inl err) \<Rightarrow> Some (Inl err)
                | Some (Inr r) \<Rightarrow> Some (Inr (backpropagate e1 path r)))))"

section \<open>The game of \<^verbatim>\<open>tictactoe.py\<close>\<close>

text \<open>
  The named tuple \<^verbatim>\<open>TicTacToeBoard\<close>. A cell and the winner are \<^verbatim>\<open>None\<close>,
  \<^verbatim>\<open>True\<close> (X) or \<^verbatim>\<open>False\<close> (O).
\<close>

record board =
  tup :: "bool option list"
  turn :: bool
  winner :: "bool option"
  terminal :: bool

text \<open>
  Python's slices \<^verbatim>\<open>xs[:i]\<close> and \<^verbatim>\<open>xs[i:]\<close>: a negative bound counts from the end,
  and a bound outside the sequence is clamped.
\<close>

definition slice_bound :: "'a list \<Rightarrow> int \<Rightarrow> nat" where
  "slice_bound xs i = (if i < 0 then nat (int (length xs) + i) else nat i)"

definition slice_to :: "'a list \<Rightarrow> int \<Rightarrow> 'a list" where
  "slice_to xs i = take (slice_bound xs i) xs"

definition slice_from :: "'a list \<Rightarrow> int \<Rightarrow> 'a list" where
  "slice_from xs i = drop (slice_bound xs i) xs"

definition winning_combos :: "(nat \<times> nat \<times> nat) list" where
  "winning_combos =
     map (\<lambda>start. (start, start + 1, start + 2)) [0, 3, 6]
     @ map (\<lambda>start. (start, start + 3, start + 6)) [0 ..< 3]
     @ [(0, 4, 8)] @ [(2, 4, 6)]"

text \<open>
  \<^verbatim>\<open>_find_winner\<close>. Reading a cell the tuple does not have raises \<^verbatim>\<open>IndexError\<close>.
\<close>

fun find_winner_loop :: "bool option list \<Rightarrow> (nat \<times> nat \<times> nat) list \<Rightarrow> error + bool option" where
  "find_winner_loop t [] = Inr None"
| "find_winner_loop t ((i1, i2, i3) # cs) =
     (if \<not> (i1 < length t \<and> i2 < length t \<and> i3 < length t) then Inl IndexError
      else let v1 = t ! i1; v2 = t ! i2; v3 = t ! i3 in
        if Some False = v1 \<and> v1 = v2 \<and> v2 = v3 then Inr (Some False)
        else if Some True = v1 \<and> v1 = v2 \<and> v2 = v3 then Inr (Some True)
        else find_winner_loop t cs)"

definition find_winner :: "bool option list \<Rightarrow> error + bool option" where
  "find_winner t = find_winner_loop t winning_combos"

definition make_move :: "board \<Rightarrow> int \<Rightarrow> error + board" where
  "make_move b index =
     (let t = slice_to (tup b) index @ [Some (turn b)] @ slice_from (tup b) (index + 1);
          trn = (\<not> turn b)
      in case find_winner t of
        Inl err \<Rightarrow> Inl err
      | Inr w \<Rightarrow>
          Inr \<lparr>tup = t, turn = trn, winner = w,
               terminal = (w \<noteq> None \<or> \<not> (\<exists>v \<in> set t. v = None))\<rparr>)"

definition empty_spots :: "board \<Rightarrow> nat list" where
  "empty_spots b = filter (\<lambda>i. tup b ! i = None) [0 ..< length (tup b)]"

fun make_moves :: "board \<Rightarrow> nat list \<Rightarrow> error + board list" where
  "make_moves b [] = Inr []"
| "make_moves b (i # idxs) =
     (case make_move b (int i) of
        Inl err \<Rightarrow> Inl err
      | Inr c \<Rightarrow> (case make_moves b idxs of Inl err \<Rightarrow> Inl err | Inr cs \<Rightarrow> Inr (c # cs)))"

text \<open>The set comprehension: one successor for each empty cell, duplicates merged.\<close>

definition find_children_board :: "board \<Rightarrow> error + board list" where
  "find_children_board b =
     (if terminal b then Inr []
      else case make_moves b (empty_spots b) of
        Inl err \<Rightarrow> Inl err
      | Inr cs \<Rightarrow> Inr (remdups cs))"

text \<open>\<^verbatim>\<open>random.choice\<close> of an empty list raises \<^verbatim>\<open>IndexError\<close>.\<close>

definition find_random_child_board :: "board \<Rightarrow> nat \<Rightarrow> error + board option" where
  "find_random_child_board b d =
     (if terminal b then Inr None
      else if empty_spots b = [] then Inl IndexError
      else case make_move b (int (empty_spots b ! (d mod length (empty_spots b)))) of
        Inl err \<Rightarrow> Inl err
      | Inr c \<Rightarrow> Inr (Some c))"

text \<open>
  \<^verbatim>\<open>reward\<close>. \<^verbatim>\<open>not self.winner\<close> is \<^verbatim>\<open>False\<close> for the winner \<^verbatim>\<open>True\<close> and
  \<^verbatim>\<open>True\<close> for \<^verbatim>\<open>False\<close> and for \<^verbatim>\<open>None\<close>.
\<close>

definition reward_board :: "board \<Rightarrow> error + real" where
  "reward_board b =
     (if \<not> terminal b then Inl RuntimeError
      else if winner b = Some (turn b) then Inl RuntimeError
      else if turn b = (winner b \<noteq> Some True) then Inr 0
      else if winner b = None then Inr (1 / 2)
      else Inl RuntimeError)"

definition is_terminal_board :: "board \<Rightarrow> bool" where
  "is_terminal_board b = terminal b"

definition new_tic_tac_toe_board :: board where
  "new_tic_tac_toe_board =
     \<lparr>tup = replicate 9 None, turn = True, winner = None, terminal = False\<rparr>"

definition TicTacToeBoard :: "board node" where
  "TicTacToeBoard =
     \<lparr>find_children = find_children_board, find_random_child = find_random_child_board,
      is_terminal = is_terminal_board, reward = reward_board\<rparr>"

section \<open>Runs of the engine and of the game\<close>

text \<open>
  A sequence of \<^verbatim>\<open>do_rollout\<close> calls on one engine, each with its root, its fuel, the
  number that resolves \<^verbatim>\<open>set.pop()\<close> and its random draws. The run is \<open>None\<close> as soon
  as a call raises or does not return.
\<close>

fun do_rollouts :: "'s node \<Rightarrow> 's mcts \<Rightarrow> ('s \<times> nat \<times> nat \<times> nat list) list \<Rightarrow> 's mcts option" where
  "do_rollouts g e [] = Some e"
| "do_rollouts g e ((nd, fuel, k, ds) # calls) =
     (case do_rollout g fuel k ds e nd of
        Some (Inr e') \<Rightarrow> do_rollouts g e' calls
      | _ \<Rightarrow> None)"

text \<open>
  What each call of such a run did: the path it selected and the reward it simulated.
\<close>

fun rollout_log ::
  "'s node \<Rightarrow> 's mcts \<Rightarrow> ('s \<times> nat \<times> nat \<times> nat list) list \<Rightarrow> ('s list \<times> real) list" where
  "rollout_log g e [] = []"
| "rollout_log g e ((nd, fuel, k, ds) # calls) =
     (case do_rollout g fuel k ds e nd of
        Some (Inr e') \<Rightarrow>
          (case select fuel k e nd of
             Some (Inr path) \<Rightarrow>
               (case simulate g ds (last path) of
                  Some (Inr r) \<Rightarrow> (path, r) # rollout_log g e' calls
                | _ \<Rightarrow> [])
           | _ \<Rightarrow> [])
      | _ \<Rightarrow> [])"

text \<open>
  The reward after \<open>i\<close> flips, which is what the state at distance \<open>i\<close> from the leaf
  is to receive, and the rewards that a rollout with the given path and simulated reward
  records for a state, one for each position the state has on the path, in the order in
  which they are recorded.
\<close>

definition flipped :: "nat \<Rightarrow> real \<Rightarrow> real" where
  "flipped i r = ((\<lambda>x. fsub 1 x) ^^ i) r"

definition recorded :: "'s list \<Rightarrow> real \<Rightarrow> 's \<Rightarrow> real list" where
  "recorded path r s =
     map (\<lambda>i. flipped i r) (filter (\<lambda>i. rev path ! i = s) [0 ..< length path])"

text \<open>
  The random walk of the simulation by itself: the number of advances it makes and the
  terminal state it ends in, \<open>None\<close> when a step fails or the draws run out.
\<close>

fun playout :: "'s node \<Rightarrow> nat list \<Rightarrow> 's \<Rightarrow> (nat \<times> 's) option" where
  "playout g ds nd =
     (if is_terminal g nd then Some (0, nd)
      else case ds of
        [] \<Rightarrow> None
      | d # ds' \<Rightarrow>
          (case find_random_child g nd d of
             Inr (Some next_node) \<Rightarrow>
               map_option (\<lambda>(plies, t). (Suc plies, t)) (playout g ds' next_node)
           | _ \<Rightarrow> None))"

text \<open>
  The guard under which the loop of \<^verbatim>\<open>_select\<close> calls \<^verbatim>\<open>_uct_select\<close>: the state is
  expanded, has children, and none of them is unexpanded.
\<close>

definition descends :: "'s mcts \<Rightarrow> 's \<Rightarrow> bool" where
  "descends e nd \<longleftrightarrow>
     (\<exists>cs. children e nd = Some cs \<and> cs \<noteq> [] \<and> filter (\<lambda>c. children e c = None) cs = [])"

text \<open>Two invariants of the engine, used in the proofs.\<close>

definition visited_keys :: "'s mcts \<Rightarrow> bool" where
  "visited_keys e \<longleftrightarrow> (\<forall>s. children e s \<noteq> None \<longrightarrow> 1 \<le> N e s)"

definition unit_range :: "'s mcts \<Rightarrow> bool" where
  "unit_range e \<longleftrightarrow> (\<forall>s. 0 \<le> Q e s \<and> Q e s \<le> real (N e s) \<and> Q e s \<le> 2 ^ 53)"

text \<open>
  Several \<^verbatim>\<open>make_move\<close> calls in a row, and the boards of a game: the initial board
  and the successors that \<^verbatim>\<open>find_children\<close> and \<^verbatim>\<open>find_random_child\<close> make.
\<close>

fun make_move_calls :: "board \<Rightarrow> int list \<Rightarrow> error + board" where
  "make_move_calls b [] = Inr b"
| "make_move_calls b (i # idxs) =
     (case make_move b i of Inl err \<Rightarrow> Inl err | Inr c \<Rightarrow> make_move_calls c idxs)"

inductive reachable_board :: "board \<Rightarrow> bool" where
  start: "reachable_board new_tic_tac_toe_board"
| child: "reachable_board b \<Longrightarrow> find_children_board b = Inr cs \<Longrightarrow> c \<in> set cs \<Longrightarrow>
     reachable_board c"
| random_child: "reachable_board b \<Longrightarrow> find_random_child_board b d = Inr (Some c) \<Longrightarrow>
     reachable_board c"

text \<open>The number of marks on a board, and the invariant of the boards of a game.\<close>

definition filled :: "bool option list \<Rightarrow> nat" where
  "filled t = length (filter (\<lambda>v. v \<noteq> None) t)"

definition board_ok :: "board \<Rightarrow> bool" where
  "board_ok b \<longleftrightarrow>
     length (tup b) = 9 \<and> find_winner (tup b) = Inr (winner b) \<and>
     terminal b = (winner b \<noteq> None \<or> None \<notin> set (tup b)) \<and>
     turn b = even (filled (tup b)) \<and> winner b \<noteq> Some (turn b)"

text \<open>
  Positions used as concrete inputs: X about to complete the top row and the board after
  it; a position with one empty cell and the drawn board after it; and three boards that
  only moves outside the rules produce (a move after the game is won, a move onto a taken
  cell, a move at index -1, which \<^verbatim>\<open>play_game\<close> passes on when the user enters
  column 0 of row 1 and which makes the tuple 18 cells long).
\<close>

definition board_x_to_win :: board where
  "board_x_to_win =
     \<lparr>tup = [Some True, Some True, None, Some False, Some False, None, None, None, None],
      turn = True, winner = None, terminal = False\<rparr>"

definition board_x_won :: board where
  "board_x_won =
     \<lparr>tup = [Some True, Some True, Some True, Some False, Some False, None, None, None, None],
      turn = False, winner = Some True, terminal = True\<rparr>"

definition board_last_cell :: board where
  "board_last_cell =
     \<lparr>tup = [Some True, Some False, Some True, Some True, Some False, Some False,
             Some False, Some True, None],
      turn = True, winner = None, terminal = False\<rparr>"

definition board_drawn :: board where
  "board_drawn =
     \<lparr>tup = [Some True, Some False, Some True, Some True, Some False, Some False,
             Some False, Some True, Some True],
      turn = False, winner = None, terminal = True\<rparr>"

definition board_moved_after_win :: board where
  "board_moved_after_win =
     \<lparr>tup = [Some True, Some True, Some True, Some False, Some False, Some False,
             None, None, None],
      turn = True, winner = Some True, terminal = True\<rparr>"

definition board_overwritten_draw :: board where
  "board_overwritten_draw =
     \<lparr>tup = [Some True, Some False, Some True, Some True, Some False, Some False,
             Some False, Some True, Some False],
      turn = True, winner = None, terminal = True\<rparr>"

definition board_outside_grid_draw :: board where
  "board_outside_grid_draw =
     \<lparr>tup = [Some True, Some False, Some True, Some True, Some False, Some False,
             Some False, Some True, Some True, Some False, Some True, Some False,
             Some True, Some False, Some True, Some False, Some True, Some False],
      turn = True, winner = None, terminal = True\<rparr>"








definition example_calls :: "(board \<times> nat \<times> nat \<times> nat list) list" where
  "example_calls = [(board_last_cell, 1, 0, [0]), (board_last_cell, 1, 0, [])]"

section \<open>Properties of the engine\<close>

declare simulate_loop.simps [simp del]

declare playout.simps [simp del]

subsection \<open>Rounding\<close>

lemma round_even_of_int: "round_even (of_int n) = n"
  by (simp add: round_even_def)

lemma round_even_bounds: "x - 1 / 2 \<le> of_int (round_even x) \<and> of_int (round_even x) \<le> x + 1 / 2"
  unfolding round_even_def Let_def by (auto; linarith)

lemma round_even_mono: "x \<le> y \<Longrightarrow> round_even x \<le> round_even y"
proof -
  assume xy: "x \<le> y"
  have fxy: "\<lfloor>x\<rfloor> \<le> \<lfloor>y\<rfloor>" using xy by (rule floor_mono)
  show ?thesis
  proof (cases "\<lfloor>x\<rfloor> = \<lfloor>y\<rfloor>")
    case True
    with xy show ?thesis
      unfolding round_even_def Let_def by auto
  next
    case False
    with fxy have "\<lfloor>x\<rfloor> + 1 \<le> \<lfloor>y\<rfloor>" by simp
    moreover have "round_even x \<le> \<lfloor>x\<rfloor> + 1"
      unfolding round_even_def Let_def by auto
    moreover have "\<lfloor>y\<rfloor> \<le> round_even y"
      unfolding round_even_def Let_def by auto
    ultimately show ?thesis by linarith
  qed
qed

lemma round_even_le: "x \<le> of_int m \<Longrightarrow> round_even x \<le> m"
  using round_even_mono [of x "of_int m"] by (simp add: round_even_of_int)

lemma round_even_ge: "of_int m \<le> x \<Longrightarrow> m \<le> round_even x"
  using round_even_mono [of "of_int m" x] by (simp add: round_even_of_int)

lemma binade_ge: "- 1022 \<le> binade x"
  by (simp add: binade_def)

lemma binade_upper: "\<bar>x\<bar> < 2 powi (binade x + 1)"
proof (cases "x = 0")
  case True
  then show ?thesis by simp
next
  case False
  then have pos: "0 < \<bar>x\<bar>" by simp
  have "\<bar>x\<bar> < 2 powr (real_of_int (\<lfloor>log 2 \<bar>x\<bar>\<rfloor> + 1))"
    using floor_log_eq_powr_iff [OF pos, of 2 "\<lfloor>log 2 \<bar>x\<bar>\<rfloor>"] by simp
  also have "\<dots> = 2 powi (\<lfloor>log 2 \<bar>x\<bar>\<rfloor> + 1)"
    by (rule powr_real_of_int') simp_all
  also have "\<dots> \<le> 2 powi (binade x + 1)"
    using False by (intro power_int_increasing) (simp_all add: binade_def)
  finally show ?thesis .
qed

lemma binade_lower: "- 1022 < binade x \<Longrightarrow> 2 powi (binade x) \<le> \<bar>x\<bar>"
proof -
  assume b: "- 1022 < binade x"
  then have nz: "x \<noteq> 0" and e: "binade x = \<lfloor>log 2 \<bar>x\<bar>\<rfloor>"
    by (auto simp: binade_def split: if_splits)
  from nz have pos: "0 < \<bar>x\<bar>" by simp
  have "2 powr (real_of_int \<lfloor>log 2 \<bar>x\<bar>\<rfloor>) \<le> \<bar>x\<bar>"
    using floor_log_eq_powr_iff [OF pos, of 2 "\<lfloor>log 2 \<bar>x\<bar>\<rfloor>"] by simp
  moreover have "2 powr (real_of_int \<lfloor>log 2 \<bar>x\<bar>\<rfloor>) = 2 powi \<lfloor>log 2 \<bar>x\<bar>\<rfloor>"
    by (rule powr_real_of_int') simp_all
  ultimately show ?thesis using e by simp
qed

lemma binade_eqI:
  assumes "- 1022 \<le> e" "2 powi e \<le> \<bar>x\<bar>" "\<bar>x\<bar> < 2 powi (e + 1)"
  shows "binade x = e"
proof -
  have pos: "0 < \<bar>x\<bar>"
    using assms(2) zero_less_power_int [of "2::real" e] by linarith
  have "2 powr (real_of_int e) = 2 powi e" "2 powr (real_of_int (e + 1)) = 2 powi (e + 1)"
    by (rule powr_real_of_int'; simp)+
  with assms have "\<lfloor>log 2 \<bar>x\<bar>\<rfloor> = e"
    using floor_log_eq_powr_iff [OF pos, of 2 e] by simp
  with pos assms(1) show ?thesis by (auto simp: binade_def)
qed

lemma binade_mono:
  assumes "\<bar>x\<bar> \<le> \<bar>y\<bar>"
  shows "binade x \<le> binade y"
proof (rule ccontr)
  assume "\<not> binade x \<le> binade y"
  then have lt: "binade y + 1 \<le> binade x" by simp
  with binade_ge [of y] have "- 1022 < binade x" by linarith
  then have "2 powi (binade x) \<le> \<bar>x\<bar>" by (rule binade_lower)
  moreover have "(2::real) powi (binade y + 1) \<le> 2 powi (binade x)"
    using lt by (intro power_int_increasing) simp_all
  ultimately show False using binade_upper [of y] assms by linarith
qed

lemma ulp_pos: "0 < ulp x"
  by (simp add: ulp_def)

lemma fl_0: "fl 0 = 0"
  by (simp add: fl_def round_even_def)

lemma fl_mono:
  assumes "0 \<le> x" "x \<le> y"
  shows "fl x \<le> fl y"
proof (cases "binade x = binade y")
  case True
  then have u: "ulp x = ulp y" by (simp add: ulp_def)
  have "x / ulp y \<le> y / ulp y"
    using assms(2) ulp_pos [of y] by (simp add: divide_right_mono)
  then have "round_even (x / ulp y) \<le> round_even (y / ulp y)"
    by (rule round_even_mono)
  then show ?thesis
    using ulp_pos [of y] by (simp add: fl_def u mult_right_mono)
next
  case False
  with binade_mono [of x y] assms have lt: "binade x + 1 \<le> binade y" by simp
  with binade_ge [of x] have "- 1022 < binade y" by linarith
  then have ylow: "2 powi (binade y) \<le> y"
    using binade_lower [of y] assms by simp
  have p52: "(2::real) powi (binade y) / ulp y = of_int (2 ^ 52)"
    by (simp add: ulp_def power_int_diff)
  have "of_int (2 ^ 52) \<le> y / ulp y"
    using ylow ulp_pos [of y] unfolding p52 [symmetric] by (simp add: divide_right_mono)
  then have "2 ^ 52 \<le> round_even (y / ulp y)"
    by (rule round_even_ge)
  then have "of_int (2 ^ 52) * ulp y \<le> fl y"
    unfolding fl_def using ulp_pos [of y] by (intro mult_right_mono) (simp_all flip: of_int_le_iff)
  moreover have "of_int (2 ^ 52) * ulp y = 2 powi (binade y)"
    using p52 ulp_pos [of y] by (simp add: field_simps)
  ultimately have 1: "2 powi (binade y) \<le> fl y" by simp
  have p53: "(2::real) powi (binade x + 1) / ulp x = of_int (2 ^ 53)"
    by (simp add: ulp_def power_int_diff power_int_add)
  have "x / ulp x \<le> of_int (2 ^ 53)"
    using binade_upper [of x] assms(1) ulp_pos [of x] unfolding p53 [symmetric]
    by (simp add: divide_right_mono)
  then have "round_even (x / ulp x) \<le> 2 ^ 53"
    by (rule round_even_le)
  then have "fl x \<le> of_int (2 ^ 53) * ulp x"
    unfolding fl_def using ulp_pos [of x] by (intro mult_right_mono) (simp_all flip: of_int_le_iff)
  moreover have "of_int (2 ^ 53) * ulp x = 2 powi (binade x + 1)"
    using p53 ulp_pos [of x] by (simp add: field_simps)
  ultimately have 2: "fl x \<le> 2 powi (binade x + 1)" by simp
  have "(2::real) powi (binade x + 1) \<le> 2 powi (binade y)"
    using lt by (intro power_int_increasing) simp_all
  with 1 2 show ?thesis by linarith
qed

lemma fl_below:
  fixes k :: nat
  assumes "k \<le> 1074" "2 ^ 52 \<le> x * 2 ^ k" "x * 2 ^ k < 2 ^ 53"
  shows "fl x = of_int (round_even (x * 2 ^ k)) / 2 ^ k"
proof -
  have pos: "0 < x"
  proof (rule ccontr)
    assume "\<not> 0 < x"
    then have "x * 2 ^ k \<le> 0" by (simp add: mult_nonpos_nonneg)
    with assms(2) show False by (smt (verit) zero_less_power)
  qed
  have p: "(2::real) powi (52 - int k) = 2 ^ 52 / 2 ^ k"
    by (simp add: power_int_diff)
  have p1: "(2::real) powi (52 - int k + 1) = 2 ^ 53 / 2 ^ k"
    by (simp add: power_int_diff power_int_add)
  have "binade x = 52 - int k"
  proof (rule binade_eqI)
    show "- 1022 \<le> 52 - int k" using assms(1) by simp
    show "2 powi (52 - int k) \<le> \<bar>x\<bar>"
      using assms(2) pos unfolding p by (simp add: field_simps)
    show "\<bar>x\<bar> < 2 powi (52 - int k + 1)"
      using assms(3) pos unfolding p1 by (simp add: field_simps)
  qed
  then have "ulp x = 2 powi (- int k)"
    unfolding ulp_def by (simp only: diff_diff_eq2 diff_add_cancel diff_self minus_diff_eq)
      (simp add: algebra_simps)
  also have "\<dots> = 1 / 2 ^ k"
    by (simp only: power_int_minus power_int_of_nat inverse_eq_divide)
  finally show ?thesis by (simp add: fl_def)
qed

lemma fl_above:
  fixes k :: nat
  assumes "2 ^ 52 \<le> x / 2 ^ k" "x / 2 ^ k < 2 ^ 53"
  shows "fl x = of_int (round_even (x / 2 ^ k)) * 2 ^ k"
proof -
  have pos: "0 < x"
  proof (rule ccontr)
    assume "\<not> 0 < x"
    then have "x / 2 ^ k \<le> 0" by (simp add: divide_nonpos_pos)
    with assms(1) show False by (smt (verit) zero_less_power)
  qed
  have p: "(2::real) powi (52 + int k) = 2 ^ 52 * 2 ^ k"
    by (simp add: power_int_add)
  have p1: "(2::real) powi (52 + int k + 1) = 2 ^ 53 * 2 ^ k"
    by (simp add: power_int_add)
  have "binade x = 52 + int k"
  proof (rule binade_eqI)
    show "- 1022 \<le> 52 + int k" by simp
    show "2 powi (52 + int k) \<le> \<bar>x\<bar>"
      using assms(1) pos unfolding p by (simp add: field_simps)
    show "\<bar>x\<bar> < 2 powi (52 + int k + 1)"
      using assms(2) pos unfolding p1 by (simp add: field_simps)
  qed
  then have "ulp x = 2 ^ k"
    by (simp add: ulp_def)
  then show ?thesis by (simp add: fl_def)
qed

lemma fl_exact: "x / ulp x = of_int m \<Longrightarrow> fl x = x"
proof -
  assume m: "x / ulp x = of_int m"
  then have "fl x = of_int m * ulp x"
    by (simp add: fl_def round_even_of_int)
  also have "\<dots> = x"
    using m ulp_pos [of x] by (simp add: field_simps)
  finally show ?thesis .
qed

lemma binade_1: "binade 1 = 0"
  by (rule binade_eqI) simp_all

lemma fl_of_int:
  assumes "0 \<le> n" "n \<le> 2 ^ 53"
  shows "fl (of_int n) = of_int n"
proof (cases "n = 0")
  case True
  then show ?thesis by (simp add: fl_0)
next
  case False
  with assms(1) have n1: "1 \<le> n" by simp
  let ?e = "binade (of_int n)"
  have e0: "0 \<le> ?e"
    using binade_mono [of 1 "of_int n"] n1 by (simp add: binade_1)
  have e53: "?e \<le> 53"
  proof (rule ccontr)
    assume "\<not> ?e \<le> 53"
    then have "54 \<le> ?e" by simp
    then have "(2::real) powi 54 \<le> 2 powi ?e"
      by (intro power_int_increasing) simp_all
    moreover have "2 powi ?e \<le> \<bar>real_of_int n\<bar>"
      using \<open>54 \<le> ?e\<close> by (intro binade_lower) simp
    moreover have "real_of_int n \<le> 2 ^ 53"
      using assms(2) by (metis of_int_le_iff of_int_numeral of_int_power)
    ultimately show False using n1 by simp
  qed
  show ?thesis
  proof (cases "?e \<le> 52")
    case True
    have "ulp (of_int n) = 1 / 2 ^ nat (52 - ?e)"
      using True by (simp add: ulp_def power_int_def power_one_over)
    then have "of_int n / ulp (of_int n) = of_int (n * 2 ^ nat (52 - ?e))"
      by simp
    then show ?thesis by (rule fl_exact)
  next
    case False
    with e53 have e: "?e = 53" by simp
    then have "2 powi 53 \<le> \<bar>real_of_int n\<bar>"
      using binade_lower [of "of_int n"] by simp
    moreover have "real_of_int n \<le> 2 ^ 53"
      using assms(2) by (metis of_int_le_iff of_int_numeral of_int_power)
    ultimately have "real_of_int n = 2 ^ 53" using n1 by simp
    moreover have "ulp (of_int n) = 2"
      using e by (simp add: ulp_def)
    ultimately have "of_int n / ulp (of_int n) = of_int (2 ^ 52)"
      by simp
    then show ?thesis by (rule fl_exact)
  qed
qed

lemma fl_of_nat: "n \<le> 2 ^ 53 \<Longrightarrow> fl (real n) = real n"
proof -
  assume "n \<le> 2 ^ 53"
  then have "int n \<le> 2 ^ 53"
    by (metis of_nat_le_iff of_nat_numeral of_nat_power)
  from fl_of_int [OF _ this] show ?thesis by simp
qed

lemma fl_1: "fl 1 = 1"
  using fl_of_int [of 1] by simp

lemma fl_half: "fl (1 / 2) = 1 / 2"
  by (subst fl_below [of 53]) (simp_all add: round_even_def)

lemma fl_quarter: "fl (1 / 4) = 1 / 4"
  by (subst fl_below [of 54]) (simp_all add: round_even_def)

lemma fl_saturates: "fl (2 ^ 53 + 1) = 2 ^ 53"
  by (subst fl_above [of _ 1]) (simp_all add: round_even_def)

lemma fl_nonneg: "0 \<le> x \<Longrightarrow> 0 \<le> fl x"
  using fl_mono [of 0 x] by (simp add: fl_0)

lemma fl_le_1: "0 \<le> x \<Longrightarrow> x \<le> 1 \<Longrightarrow> fl x \<le> 1"
  using fl_mono [of x 1] by (simp add: fl_1)

text \<open>
  The double nearest to one tenth, and what two flips make of it.
\<close>

lemma fl_tenth: "fl (3602879701896397 / 36028797018963968) = 3602879701896397 / 36028797018963968"
  by (subst fl_below [of 56]) (simp_all add: round_even_def)

lemma fsub_1_tenth: "fsub 1 (3602879701896397 / 36028797018963968) = 8106479329266893 / 9007199254740992"
  unfolding fsub_def by (subst fl_below [of 53]) (simp_all add: round_even_def)

lemma fsub_1_nine_tenths: "fsub 1 (8106479329266893 / 9007199254740992) = 900719925474099 / 9007199254740992"
  unfolding fsub_def by (subst fl_below [of 56]) (simp_all add: round_even_def)

lemma fsub_unit: "0 \<le> r \<Longrightarrow> r \<le> 1 \<Longrightarrow> 0 \<le> fsub 1 r \<and> fsub 1 r \<le> 1"
  unfolding fsub_def using fl_nonneg [of "1 - r"] fl_le_1 [of "1 - r"] by simp

lemma fadd_bound:
  assumes "0 \<le> q" "q \<le> real n" "q \<le> 2 ^ 53" "0 \<le> r" "r \<le> 1"
  shows "0 \<le> fadd q r \<and> fadd q r \<le> real (n + 1) \<and> fadd q r \<le> 2 ^ 53"
proof -
  have 0: "0 \<le> fadd q r"
    unfolding fadd_def using assms(1,4) by (intro fl_nonneg) simp
  have "fl (q + r) \<le> fl (2 ^ 53 + 1)"
    using assms by (intro fl_mono) simp_all
  then have 1: "fadd q r \<le> 2 ^ 53"
    by (simp only: fadd_def fl_saturates)
  have 2: "fadd q r \<le> real (n + 1)"
  proof (cases "n + 1 \<le> 2 ^ 53")
    case True
    have "fl (q + r) \<le> fl (real (n + 1))"
      using assms by (intro fl_mono) simp_all
    with True show ?thesis
      by (simp only: fadd_def fl_of_nat)
  next
    case False
    then have "(2::nat) ^ 53 \<le> n + 1" by simp
    then have "(2::real) ^ 53 \<le> real (n + 1)"
      by (metis of_nat_le_iff of_nat_numeral of_nat_power)
    with 1 show ?thesis by linarith
  qed
  from 0 1 2 show ?thesis by simp
qed

lemma fdiv_unit:
  assumes "0 \<le> q" "q \<le> real n" "q \<le> 2 ^ 53" "0 < n"
  shows "0 \<le> fdiv q (fl (real n)) \<and> fdiv q (fl (real n)) \<le> 1"
proof -
  have "0 < fl (real n) \<and> q \<le> fl (real n)"
  proof (cases "n \<le> 2 ^ 53")
    case True
    with assms(2,4) show ?thesis by (simp add: fl_of_nat)
  next
    case False
    then have "(2::nat) ^ 53 \<le> n" by simp
    then have "(2::real) ^ 53 \<le> real n"
      by (metis of_nat_le_iff of_nat_numeral of_nat_power)
    then have "fl (2 ^ 53) \<le> fl (real n)"
      by (intro fl_mono) simp_all
    moreover have "fl (2 ^ 53) = 2 ^ 53"
      using fl_of_int [of "2 ^ 53"] by simp
    ultimately have "2 ^ 53 \<le> fl (real n)" by simp
    with assms(3) show ?thesis by simp
  qed
  with assms(1) have "0 \<le> q / fl (real n)" "q / fl (real n) \<le> 1"
    by simp_all
  then show ?thesis
    unfolding fdiv_def by (simp add: fl_nonneg fl_le_1)
qed

lemma fsub_1_0: "fsub 1 0 = 1"
  by (simp add: fsub_def fl_1)

lemma fsub_1_1: "fsub 1 1 = 0"
  by (simp add: fsub_def fl_0)

lemma fsub_1_half: "fsub 1 (1 / 2) = 1 / 2"
  using fl_half by (simp add: fsub_def)

lemma fadd_0_left: "fadd 0 x = fl x"
  by (simp add: fadd_def)

lemma fadd_half_half: "fadd (1 / 2) (1 / 2) = 1"
  by (simp add: fadd_def fl_1)

subsection \<open>Backpropagation\<close>

lemma flipped_Suc: "flipped (Suc i) r = flipped i (fsub 1 r)"
  by (simp add: flipped_def funpow_swap1)

lemma positions_Cons:
  "filter (\<lambda>i. (x # xs) ! i = s) [0 ..< Suc (length xs)] =
     (if x = s then [0] else []) @ map Suc (filter (\<lambda>i. xs ! i = s) [0 ..< length xs])"
proof -
  have "[0 ..< Suc (length xs)] = 0 # map Suc [0 ..< length xs]"
    by (simp add: upt_conv_Cons map_Suc_upt del: upt_Suc)
  then show ?thesis
    by (simp add: filter_map comp_def del: upt_Suc)
qed

lemma backpropagate_loop_N:
  "N (backpropagate_loop e xs r) s = N e s + count_list xs s"
  by (induction xs arbitrary: e r) auto

lemma backpropagate_loop_Q:
  "Q (backpropagate_loop e xs r) s =
     foldl fadd (Q e s) (map (\<lambda>i. flipped i r) (filter (\<lambda>i. xs ! i = s) [0 ..< length xs]))"
proof (induction xs arbitrary: e r)
  case Nil
  show ?case by simp
next
  case (Cons x xs)
  have f0: "flipped 0 r = r"
    by (simp add: flipped_def)
  show ?case
    unfolding backpropagate_loop.simps Cons.IH list.size(4)
    by (simp only: positions_Cons add_Suc_right add_0_right)
       (simp add: comp_def flipped_Suc f0 del: upt_Suc)
qed

lemma backpropagate_loop_children:
  "children (backpropagate_loop e xs r) = children e"
  by (induction xs arbitrary: e r) auto

lemma backpropagate_N: "N (backpropagate e path r) s = N e s + count_list path s"
  by (simp add: backpropagate_def backpropagate_loop_N)

lemma backpropagate_Q:
  "Q (backpropagate e path r) s = foldl fadd (Q e s) (recorded path r s)"
  by (simp add: backpropagate_def backpropagate_loop_Q recorded_def)

lemma positions_distinct:
  "distinct xs \<Longrightarrow> i < length xs \<Longrightarrow> filter (\<lambda>j. xs ! j = xs ! i) [0 ..< length xs] = [i]"
proof -
  assume d: "distinct xs" and i: "i < length xs"
  have "filter (\<lambda>j. xs ! j = xs ! i) [0 ..< length xs] = filter (\<lambda>j. j = i) [0 ..< length xs]"
    by (rule filter_cong) (auto simp: nth_eq_iff_index_eq d i)
  also have "\<dots> = [i]"
    using i by (induction xs rule: rev_induct) (auto simp: less_Suc_eq)
  finally show ?thesis .
qed

lemma recorded_distinct:
  "distinct path \<Longrightarrow> i < length path \<Longrightarrow> recorded path r (rev path ! i) = [flipped i r]"
  using positions_distinct [of "rev path" i] by (simp add: recorded_def)

lemma recorded_notin: "s \<notin> set path \<Longrightarrow> recorded path r s = []"
proof -
  assume "s \<notin> set path"
  then have "filter (\<lambda>i. rev path ! i = s) [0 ..< length path] = []"
    by (auto simp: filter_empty_conv) (metis length_rev nth_mem set_rev)
  then show ?thesis by (simp add: recorded_def)
qed

lemma count_list_distinct:
  "distinct xs \<Longrightarrow> count_list xs x = (if x \<in> set xs then 1 else 0)"
  by (induction xs) auto

lemma backpropagate_loop_range:
  "0 \<le> r \<Longrightarrow> r \<le> 1 \<Longrightarrow> unit_range e \<Longrightarrow> unit_range (backpropagate_loop e xs r)"
proof (induction xs arbitrary: e r)
  case Nil
  then show ?case by simp
next
  case (Cons x xs)
  let ?e = "e\<lparr>N := (N e)(x := N e x + 1), Q := (Q e)(x := fadd (Q e x) r)\<rparr>"
  from Cons.prems(3) have q: "0 \<le> Q e x" "Q e x \<le> real (N e x)" "Q e x \<le> 2 ^ 53"
    by (simp_all add: unit_range_def)
  from fadd_bound [OF q Cons.prems(1,2)] Cons.prems(3) have "unit_range ?e"
    by (simp add: unit_range_def)
  with Cons.IH [of "fsub 1 r" ?e] fsub_unit [OF Cons.prems(1,2)] show ?case
    by simp
qed

subsection \<open>Maximum by key\<close>

lemma max_loop_mem: "max_loop key best xs \<in> insert best (set xs)"
  by (induction xs arbitrary: best) (auto split: if_splits)

lemma max_loop_ge_best: "key best \<le> key (max_loop key best xs)"
proof (induction xs arbitrary: best)
  case Nil
  show ?case by simp
next
  case (Cons x xs)
  show ?case
    using Cons.IH [of x] Cons.IH [of best] by (auto simp: not_less intro: order_trans less_imp_le)
qed

lemma max_loop_ge: "x \<in> set xs \<Longrightarrow> key x \<le> key (max_loop key best xs)"
proof (induction xs arbitrary: best)
  case Nil
  then show ?case by simp
next
  case (Cons y ys)
  show ?case
  proof (cases "x = y")
    case True
    show ?thesis
      using max_loop_ge_best [of key y ys] max_loop_ge_best [of key best ys] True
      by (auto simp: not_less intro: order_trans)
  next
    case False
    with Cons.prems have "x \<in> set ys" by simp
    then show ?thesis using Cons.IH by simp
  qed
qed

lemma max_key_Inr:
  "xs \<noteq> [] \<Longrightarrow> \<exists>c. max_key key xs = Inr c \<and> c \<in> set xs \<and> (\<forall>x \<in> set xs. key x \<le> key c)"
proof (cases xs)
  case Nil
  assume "xs \<noteq> []"
  with Nil show ?thesis by simp
next
  case (Cons y ys)
  have "max_loop key y ys \<in> set xs"
    using max_loop_mem [of key y ys] Cons by simp
  moreover have "\<forall>x \<in> set xs. key x \<le> key (max_loop key y ys)"
    using max_loop_ge [of _ ys key y] max_loop_ge_best [of key y ys] Cons by auto
  ultimately show ?thesis
    by (simp add: max_key_def Cons)
qed

lemma max_key_mem: "max_key key xs = Inr c \<Longrightarrow> c \<in> set xs"
  using max_key_Inr [of xs key] by (cases xs) (auto simp: max_key_def)

lemma uct_select_Inr:
  "uct_select e nd = Inr n \<Longrightarrow>
     \<exists>cs. children e nd = Some cs \<and> n \<in> set cs \<and> (\<forall>c \<in> set cs. children e c \<noteq> None)"
  by (auto simp: uct_select_def split: option.splits if_splits dest: max_key_mem)

subsection \<open>Selection\<close>

text \<open>The accumulated path is a prefix of the result, and more fuel changes nothing.\<close>

lemma pop_mem: "xs \<noteq> [] \<Longrightarrow> pop k xs \<in> set xs"
  by (simp add: pop_def)

lemma select_loop_path:
  "select_loop fuel k e path nd =
     map_option (map_sum id (\<lambda>p. path @ p)) (select_loop fuel k e [] nd)"
proof (induction fuel arbitrary: path nd)
  case 0
  show ?case by simp
next
  case (Suc fuel)
  show ?case
    by (simp split: option.splits sum.splits
        add: Let_def Suc.IH [of "path @ [nd]"] Suc.IH [of "[nd]"]
             option.map_comp sum.map_comp comp_def id_def)
qed

lemma select_loop_mono:
  "select_loop fuel k e path nd = Some r \<Longrightarrow> fuel \<le> fuel' \<Longrightarrow>
     select_loop fuel' k e path nd = Some r"
proof (induction fuel arbitrary: fuel' path nd)
  case 0
  then show ?case by simp
next
  case (Suc fuel)
  from Suc.prems(2) obtain f where f: "fuel' = Suc f" "fuel \<le> f"
    by (cases fuel') auto
  show ?case
    using Suc.prems(1) Suc.IH [OF _ f(2)] unfolding f(1)
    by (auto split: option.splits sum.splits if_splits simp: Let_def)
qed

lemma select_loop_cases:
  assumes "select_loop (Suc fuel) k e [] nd = Some (Inr p)"
  obtains (stop) "\<not> descends e nd" "p = [nd] \<or> (\<exists>c. p = [nd, c] \<and> children e nd \<noteq> None \<and> children e c = None)"
  | (descend) n q where "descends e nd" "uct_select e nd = Inr n"
      "select_loop fuel k e [] n = Some (Inr q)" "p = nd # q"
proof (cases "descends e nd")
  case False
  have "p = [nd] \<or> (\<exists>c. p = [nd, c] \<and> children e nd \<noteq> None \<and> children e c = None)"
  proof (cases "children e nd")
    case None
    with assms show ?thesis by simp
  next
    case (Some cs)
    show ?thesis
    proof (cases "cs = []")
      case True
      with assms Some show ?thesis by simp
    next
      case False
      with \<open>\<not> descends e nd\<close> Some
      have ne: "filter (\<lambda>c. children e c = None) cs \<noteq> []"
        by (simp add: descends_def)
      then have "pop k (filter (\<lambda>c. children e c = None) cs)
          \<in> set (filter (\<lambda>c. children e c = None) cs)"
        by (rule pop_mem)
      then have "children e (pop k (filter (\<lambda>c. children e c = None) cs)) = None"
        by simp
      with assms Some False ne show ?thesis
        by (auto simp: Let_def)
    qed
  qed
  with False show ?thesis by (rule stop)
next
  case True
  then obtain cs where cs: "children e nd = Some cs" "cs \<noteq> []"
      "filter (\<lambda>c. children e c = None) cs = []"
    by (auto simp: descends_def)
  from assms cs obtain n where n: "uct_select e nd = Inr n"
      and r: "select_loop fuel k e [nd] n = Some (Inr p)"
    by (auto simp: Let_def split: sum.splits)
  have "select_loop fuel k e [nd] n =
      map_option (map_sum id (\<lambda>p. [nd] @ p)) (select_loop fuel k e [] n)"
    by (rule select_loop_path)
  with r obtain z where z: "select_loop fuel k e [] n = Some z"
      "map_sum id (\<lambda>p. [nd] @ p) z = Inr p"
    by auto
  then obtain q where "select_loop fuel k e [] n = Some (Inr q)" "p = nd # q"
    by (cases z) auto
  with True n show ?thesis by (rule descend)
qed

text \<open>
  A selected path never repeats a state: the engine does not change during selection,
  so a state met twice would be left the same way both times, and the loop would not
  return.
\<close>

lemma select_loop_suffix:
  "select_loop fuel k e [] m = Some (Inr p) \<Longrightarrow> x \<in> set p \<Longrightarrow> descends e x \<Longrightarrow>
     \<exists>fuel' q. fuel' \<le> fuel \<and> select_loop fuel' k e [] x = Some (Inr q) \<and> length q \<le> length p"
proof (induction fuel arbitrary: m p)
  case 0
  then show ?case by simp
next
  case (Suc fuel)
  from Suc.prems(1) show ?case
  proof (cases rule: select_loop_cases)
    case stop
    with Suc.prems(2,3) have "x = m"
      by (auto simp: descends_def)
    with Suc.prems(1) show ?thesis by blast
  next
    case (descend n q)
    show ?thesis
    proof (cases "x = m")
      case True
      with Suc.prems(1) show ?thesis by blast
    next
      case False
      with Suc.prems(2) descend(4) have "x \<in> set q" by simp
      from Suc.IH [OF descend(3) this Suc.prems(3)]
      obtain fuel' q' where "fuel' \<le> fuel" "select_loop fuel' k e [] x = Some (Inr q')"
          "length q' \<le> length q"
        by blast
      with descend(4) show ?thesis
        by (intro exI [of _ fuel'] exI [of _ q']) simp
    qed
  qed
qed

lemma select_loop_distinct:
  "select_loop fuel k e [] nd = Some (Inr p) \<Longrightarrow> distinct p"
proof (induction fuel arbitrary: nd p)
  case 0
  then show ?case by simp
next
  case (Suc fuel)
  from Suc.prems show ?case
  proof (cases rule: select_loop_cases)
    case stop
    then show ?thesis by auto
  next
    case (descend n q)
    have "distinct q" using Suc.IH [OF descend(3)] .
    moreover have "nd \<notin> set q"
    proof
      assume "nd \<in> set q"
      from select_loop_suffix [OF descend(3) this descend(1)]
      obtain fuel' q' where f: "fuel' \<le> fuel"
          and q': "select_loop fuel' k e [] nd = Some (Inr q')" "length q' \<le> length q"
        by blast
      from select_loop_mono [OF q'(1), of "Suc fuel"] f
      have "select_loop (Suc fuel) k e [] nd = Some (Inr q')" by simp
      with Suc.prems descend(4) q'(2) show False
        by (simp del: select_loop.simps)
    qed
    ultimately show ?thesis using descend(4) by simp
  qed
qed

lemma select_distinct: "select fuel k e nd = Some (Inr p) \<Longrightarrow> distinct p"
  unfolding select_def by (rule select_loop_distinct)

lemma select_loop_shape:
  "select_loop fuel k e [] nd = Some (Inr p) \<Longrightarrow>
     p \<noteq> [] \<and> hd p = nd \<and> (\<forall>x \<in> set (butlast p). children e x \<noteq> None)"
proof (induction fuel arbitrary: nd p)
  case 0
  then show ?case by simp
next
  case (Suc fuel)
  from Suc.prems show ?case
  proof (cases rule: select_loop_cases)
    case stop
    then show ?thesis by auto
  next
    case (descend n q)
    from Suc.IH [OF descend(3)] descend(1,4) show ?thesis
      by (auto simp: descends_def)
  qed
qed

lemma select_shape:
  "select fuel k e nd = Some (Inr p) \<Longrightarrow>
     p \<noteq> [] \<and> hd p = nd \<and> (\<forall>x \<in> set (butlast p). children e x \<noteq> None)"
  unfolding select_def by (rule select_loop_shape)

lemma select_loop_no_assertion:
  "select_loop fuel k e path nd \<noteq> Some (Inl AssertionError)"
proof (induction fuel arbitrary: path nd)
  case 0
  show ?case by simp
next
  case (Suc fuel)
  have "uct_select e nd \<noteq> Inl AssertionError"
    if "children e nd = Some cs" "filter (\<lambda>c. children e c = None) cs = []" for cs
    using that by (auto simp: uct_select_def filter_empty_conv max_key_def split: list.splits)
  with Suc.IH show ?case
    by (auto simp: Let_def split: option.splits sum.splits)
qed

subsection \<open>Simulation\<close>

lemma simulate_loop_playout:
  "playout g ds nd = Some (plies, t) \<Longrightarrow>
     is_terminal g t \<and>
     simulate_loop g ds flag nd =
       Some (case reward g t of
               Inl err \<Rightarrow> Inl err
             | Inr r \<Rightarrow> Inr (if flag = even plies then fsub 1 r else r))"
proof (induction ds arbitrary: nd flag plies)
  case Nil
  then show ?case
    by (subst simulate_loop.simps, subst (asm) playout.simps)
       (auto split: if_splits sum.splits)
next
  case (Cons d ds)
  show ?case
  proof (cases "is_terminal g nd")
    case True
    with Cons.prems show ?thesis
      by (subst simulate_loop.simps, subst (asm) playout.simps) (auto split: sum.splits)
  next
    case False
    with Cons.prems obtain n p where n: "find_random_child g nd d = Inr (Some n)"
      and p: "playout g ds n = Some (p, t)" "plies = Suc p"
      by (subst (asm) playout.simps) (auto split: sum.splits option.splits)
    from Cons.IH [OF p(1), of "\<not> flag"] False n p(2) show ?thesis
      by (subst simulate_loop.simps) (auto split: sum.splits)
  qed
qed

lemma simulate_loop_playout_conv:
  "simulate_loop g ds flag nd = Some (Inr v) \<Longrightarrow>
     \<exists>plies t r. playout g ds nd = Some (plies, t) \<and> reward g t = Inr r \<and>
       v = (if flag = even plies then fsub 1 r else r)"
proof (induction ds arbitrary: nd flag)
  case Nil
  then show ?case
    by (subst playout.simps, subst (asm) simulate_loop.simps)
       (auto split: if_splits sum.splits)
next
  case (Cons d ds)
  show ?case
  proof (cases "is_terminal g nd")
    case True
    with Cons.prems show ?thesis
      by (subst playout.simps, subst (asm) simulate_loop.simps)
         (auto split: if_splits sum.splits)
  next
    case False
    with Cons.prems obtain n where n: "find_random_child g nd d = Inr (Some n)"
      and s: "simulate_loop g ds (\<not> flag) n = Some (Inr v)"
      by (subst (asm) simulate_loop.simps) (auto split: sum.splits option.splits)
    from Cons.IH [OF s] obtain plies t r where "playout g ds n = Some (plies, t)"
        "reward g t = Inr r" "v = (if (\<not> flag) = even plies then fsub 1 r else r)"
      by blast
    with False n show ?thesis
      by (subst playout.simps) auto
  qed
qed

lemma simulate_loop_range:
  assumes "\<And>s r. is_terminal g s \<Longrightarrow> reward g s = Inr r \<Longrightarrow> 0 \<le> r \<and> r \<le> 1"
  shows "simulate_loop g ds flag nd = Some (Inr r) \<Longrightarrow> 0 \<le> r \<and> r \<le> 1"
proof (induction ds arbitrary: nd flag)
  case Nil
  then show ?case
    using assms [of nd]
    by (subst (asm) simulate_loop.simps) (auto split: if_splits sum.splits dest: fsub_unit)
next
  case (Cons d ds)
  from Cons.prems show ?case
    using assms [of nd] Cons.IH
    by (subst (asm) simulate_loop.simps)
       (auto split: if_splits sum.splits option.splits dest: fsub_unit)
qed

subsection \<open>Rollouts\<close>

lemma expand_fields:
  "expand g e nd = Inr e1 \<Longrightarrow> N e1 = N e \<and> Q e1 = Q e \<and> children e1 nd \<noteq> None
     \<and> (\<forall>s. children e s \<noteq> None \<longrightarrow> children e1 s = children e s)
     \<and> (\<forall>s. s \<noteq> nd \<longrightarrow> children e1 s = children e s)"
  by (auto simp: expand_def split: if_splits sum.splits)

lemma do_rollout_Inr:
  assumes "do_rollout g fuel k ds e nd = Some (Inr e')"
  obtains path e1 r where "select fuel k e nd = Some (Inr path)"
    "expand g e (last path) = Inr e1" "simulate g ds (last path) = Some (Inr r)"
    "e' = backpropagate e1 path r"
  using assms
  by (auto simp: do_rollout_def Let_def split: option.splits sum.splits)

lemma do_rollouts_invariant:
  assumes "do_rollouts g e0 calls = Some e" and "P e0"
    and step: "\<And>e nd fuel k ds e'. P e \<Longrightarrow> do_rollout g fuel k ds e nd = Some (Inr e') \<Longrightarrow> P e'"
  shows "P e"
  using assms(1,2)
proof (induction calls arbitrary: e0)
  case Nil
  then show ?case by simp
next
  case (Cons c calls)
  obtain nd fuel k ds where c: "c = (nd, fuel, k, ds)"
    by (cases c) auto
  from Cons.prems(1) obtain e1 where e1: "do_rollout g fuel k ds e0 nd = Some (Inr e1)"
      "do_rollouts g e1 calls = Some e"
    unfolding c by (auto split: option.splits sum.splits)
  from step [OF Cons.prems(2) e1(1)] have "P e1" .
  from Cons.IH [OF e1(2) this] show ?case .
qed

lemma do_rollout_visited_keys:
  assumes "visited_keys e" "do_rollout g fuel k ds e nd = Some (Inr e')"
  shows "visited_keys e'"
proof -
  from assms(2) obtain path e1 r where p: "select fuel k e nd = Some (Inr path)"
      and e1: "expand g e (last path) = Inr e1"
      and e': "e' = backpropagate e1 path r"
    by (rule do_rollout_Inr)
  from select_shape [OF p] have ne: "path \<noteq> []" by simp
  note f = expand_fields [OF e1]
  have ch: "children e' = children e1"
    by (simp add: e' backpropagate_def backpropagate_loop_children)
  have n: "N e' s = N e s + count_list path s" for s
    by (simp add: e' backpropagate_N f)
  show ?thesis
    unfolding visited_keys_def
  proof (intro allI impI)
    fix s
    assume s: "children e' s \<noteq> None"
    show "1 \<le> N e' s"
    proof (cases "s = last path")
      case True
      with ne have "s \<in> set path" by simp
      then have "0 < count_list path s"
        using count_list_0_iff [of path s] by simp
      then show ?thesis by (simp add: n)
    next
      case False
      with s f ch have "children e s \<noteq> None" by simp
      with assms(1) have "1 \<le> N e s" by (simp add: visited_keys_def)
      then show ?thesis by (simp add: n)
    qed
  qed
qed

lemma do_rollouts_visited_keys:
  assumes "do_rollouts g (init w) calls = Some e"
  shows "visited_keys e"
  using assms
proof (rule do_rollouts_invariant)
  show "visited_keys (init w)"
    by (simp add: visited_keys_def init_def)
qed (rule do_rollout_visited_keys)

text \<open>
  The registry of an engine reached by rollouts holds what \<^verbatim>\<open>find_children()\<close> gave.
\<close>

lemma do_rollouts_registry:
  assumes "do_rollouts g (init w) calls = Some e" and "children e s = Some cs"
  shows "find_children g s = Inr cs"
proof -
  have "\<forall>s cs. children e s = Some cs \<longrightarrow> find_children g s = Inr cs"
    using assms(1)
  proof (rule do_rollouts_invariant)
    show "\<forall>s cs. children (init w) s = Some cs \<longrightarrow> find_children g s = Inr cs"
      by (simp add: init_def)
  next
    fix e1 nd fuel k ds e2
    assume inv: "\<forall>s cs. children e1 s = Some cs \<longrightarrow> find_children g s = Inr cs"
      and r: "do_rollout g fuel k ds e1 nd = Some (Inr e2)"
    from r obtain path e' r' where e': "expand g e1 (last path) = Inr e'"
        and e2: "e2 = backpropagate e' path r'"
      by (rule do_rollout_Inr)
    have "children e2 = children e'"
      by (simp add: e2 backpropagate_def backpropagate_loop_children)
    moreover from e' inv
    have "\<forall>s cs. children e' s = Some cs \<longrightarrow> find_children g s = Inr cs"
      by (auto simp: expand_def split: if_splits sum.splits)
    ultimately show "\<forall>s cs. children e2 s = Some cs \<longrightarrow> find_children g s = Inr cs"
      by simp
  qed
  with assms(2) show ?thesis by blast
qed

lemma uct_select_ok:
  assumes "visited_keys e" "descends e nd"
  shows "\<exists>n. uct_select e nd = Inr n"
proof -
  from assms(2) obtain cs where cs: "children e nd = Some cs" "cs \<noteq> []"
      "\<forall>c \<in> set cs. children e c \<noteq> None"
    by (auto simp: descends_def filter_empty_conv)
  from assms(1) cs have "N e nd \<noteq> 0" "\<forall>c \<in> set cs. N e c \<noteq> 0"
    unfolding visited_keys_def by (force)+
  with cs max_key_Inr [OF cs(2), of "uct e (fl (ln (fl (real (N e nd)))))"] show ?thesis
    by (auto simp: uct_select_def)
qed

lemma select_loop_no_error:
  assumes "visited_keys e"
  shows "select_loop fuel k e path nd \<noteq> Some (Inl err)"
proof (induction fuel arbitrary: path nd)
  case 0
  show ?case by simp
next
  case (Suc fuel)
  have "uct_select e nd \<noteq> Inl err"
    if "children e nd = Some cs" "cs \<noteq> []" "filter (\<lambda>c. children e c = None) cs = []" for cs
    using uct_select_ok [OF assms, of nd] that by (auto simp: descends_def)
  with Suc.IH show ?case
    by (auto simp: Let_def split: option.splits sum.splits)
qed

lemma do_rollout_unit_range:
  assumes rw: "\<And>s r. is_terminal g s \<Longrightarrow> reward g s = Inr r \<Longrightarrow> 0 \<le> r \<and> r \<le> 1"
    and "unit_range e" "do_rollout g fuel k ds e nd = Some (Inr e')"
  shows "unit_range e'"
proof -
  from assms(3) obtain path e1 r where e1: "expand g e (last path) = Inr e1"
      and r: "simulate g ds (last path) = Some (Inr r)"
      and e': "e' = backpropagate e1 path r"
    by (rule do_rollout_Inr)
  from simulate_loop_range [where g = g and ds = ds and flag = True and nd = "last path" and r = r, OF rw] r have r01: "0 \<le> r" "r \<le> 1"
    by (auto simp: simulate_def)
  from assms(2) expand_fields [OF e1] have "unit_range e1"
    by (simp add: unit_range_def)
  from backpropagate_loop_range [OF r01 this] show ?thesis
    by (simp add: e' backpropagate_def)
qed

lemma do_rollouts_log:
  "do_rollouts g e0 calls = Some e \<Longrightarrow>
     N e s = N e0 s + length (filter (\<lambda>(path, r). s \<in> set path) (rollout_log g e0 calls)) \<and>
     Q e s = foldl fadd (Q e0 s)
       (concat (map (\<lambda>(path, r). recorded path r s) (rollout_log g e0 calls))) \<and>
     (\<forall>(path, r) \<in> set (rollout_log g e0 calls). distinct path) \<and>
     length (rollout_log g e0 calls) = length calls"
proof (induction calls arbitrary: e0)
  case Nil
  then show ?case by simp
next
  case (Cons c calls)
  obtain nd fuel k ds where c: "c = (nd, fuel, k, ds)"
    by (cases c) auto
  from Cons.prems(1) obtain e1 where e1: "do_rollout g fuel k ds e0 nd = Some (Inr e1)"
      "do_rollouts g e1 calls = Some e"
    unfolding c by (auto split: option.splits sum.splits)
  from e1(1) obtain path e2 r where p: "select fuel k e0 nd = Some (Inr path)"
      and e2: "expand g e0 (last path) = Inr e2"
      and r: "simulate g ds (last path) = Some (Inr r)"
      and b: "e1 = backpropagate e2 path r"
    by (rule do_rollout_Inr)
  have d: "distinct path" using p by (rule select_distinct)
  have log: "rollout_log g e0 (c # calls) = (path, r) # rollout_log g e1 calls"
    by (simp add: c e1(1) p r)
  have n: "N e1 s = N e0 s + (if s \<in> set path then 1 else 0)"
    using d expand_fields [OF e2]
    by (simp add: b backpropagate_N count_list_distinct)
  have q: "Q e1 s = foldl fadd (Q e0 s) (recorded path r s)"
    using expand_fields [OF e2] by (simp add: b backpropagate_Q)
  from Cons.IH [OF e1(2)] d show ?case
    unfolding log by (simp add: n q)
qed

section \<open>Properties of the game\<close>

lemma find_winner_loop_Some:
  "find_winner_loop t cs = Inr (Some x) \<Longrightarrow>
     \<exists>(i1, i2, i3) \<in> set cs. t ! i1 = Some x \<and> t ! i2 = Some x \<and> t ! i3 = Some x"
  by (induction t cs rule: find_winner_loop.induct)
     (auto simp: Let_def split: if_splits)

lemma find_winner_loop_None:
  "find_winner_loop t cs = Inr None \<Longrightarrow> (i1, i2, i3) \<in> set cs \<Longrightarrow>
     \<not> (t ! i1 = Some x \<and> t ! i2 = Some x \<and> t ! i3 = Some x)"
proof (induction t cs rule: find_winner_loop.induct)
  case (1 t)
  then show ?case by simp
next
  case (2 t j1 j2 j3 cs)
  show ?case
  proof (cases "(i1, i2, i3) = (j1, j2, j3)")
    case True
    with "2.prems"(1) show ?thesis
      by (cases x) (auto simp: Let_def split: if_splits)
  next
    case False
    with "2.prems" have "find_winner_loop t cs = Inr None" "(i1, i2, i3) \<in> set cs"
      by (auto simp: Let_def split: if_splits)
    with "2.IH" "2.prems" show ?thesis
      by (auto simp: Let_def split: if_splits)
  qed
qed

lemma find_winner_update:
  assumes "find_winner t = Inr None" "i < length t"
    and "find_winner (t[i := Some p]) = Inr (Some x)"
  shows "x = p"
proof (rule ccontr)
  assume ne: "x \<noteq> p"
  from assms(3) obtain i1 i2 i3 where c: "(i1, i2, i3) \<in> set winning_combos"
      and l: "t[i := Some p] ! i1 = Some x" "t[i := Some p] ! i2 = Some x"
        "t[i := Some p] ! i3 = Some x"
    unfolding find_winner_def by (auto dest: find_winner_loop_Some)
  from l ne assms(2) have "i1 \<noteq> i" "i2 \<noteq> i" "i3 \<noteq> i"
    by auto
  with l have "t ! i1 = Some x \<and> t ! i2 = Some x \<and> t ! i3 = Some x"
    by simp
  with find_winner_loop_None [OF assms(1) [unfolded find_winner_def] c] show False
    by blast
qed

lemma filled_update:
  "i < length t \<Longrightarrow> t ! i = None \<Longrightarrow> filled (t[i := Some p]) = Suc (filled t)"
proof (induction t arbitrary: i)
  case Nil
  then show ?case by simp
next
  case (Cons a t)
  show ?case
  proof (cases i)
    case 0
    with Cons.prems show ?thesis by (simp add: filled_def)
  next
    case (Suc j)
    with Cons.prems Cons.IH [of j] show ?thesis by (simp add: filled_def)
  qed
qed

lemma filled_full: "None \<notin> set t \<Longrightarrow> filled t = length t"
proof (induction t)
  case Nil
  show ?case by (simp add: filled_def)
next
  case (Cons a t)
  then show ?case by (cases a) (auto simp: filled_def)
qed

lemma make_move_legal:
  assumes "i < length (tup b)"
  shows "make_move b (int i) =
     (case find_winner ((tup b)[i := Some (turn b)]) of
        Inl err \<Rightarrow> Inl err
      | Inr w \<Rightarrow>
          Inr \<lparr>tup = (tup b)[i := Some (turn b)], turn = (\<not> turn b), winner = w,
               terminal = (w \<noteq> None \<or> None \<notin> set ((tup b)[i := Some (turn b)]))\<rparr>)"
proof -
  have "slice_to (tup b) (int i) @ [Some (turn b)] @ slice_from (tup b) (int i + 1)
      = (tup b)[i := Some (turn b)]"
    using assms by (simp add: slice_to_def slice_from_def slice_bound_def upd_conv_take_nth_drop
        nat_add_distrib)
  then show ?thesis
    by (simp add: make_move_def Let_def split: sum.splits)
qed

lemma make_move_ok:
  assumes "board_ok b" "\<not> terminal b" "i < length (tup b)" "tup b ! i = None"
    and "make_move b (int i) = Inr c"
  shows "board_ok c"
proof -
  let ?t = "(tup b)[i := Some (turn b)]"
  from assms(5) obtain w where w: "find_winner ?t = Inr w"
      and c: "c = \<lparr>tup = ?t, turn = (\<not> turn b), winner = w,
                   terminal = (w \<noteq> None \<or> None \<notin> set ?t)\<rparr>"
    unfolding make_move_legal [OF assms(3)] by (auto split: sum.splits)
  from assms(1,2) have none: "find_winner (tup b) = Inr None"
    by (auto simp: board_ok_def)
  have "w \<noteq> Some (\<not> turn b)"
    using find_winner_update [OF none assms(3), of "turn b" "\<not> turn b"] w by auto
  moreover have "filled ?t = Suc (filled (tup b))"
    using assms(3,4) by (rule filled_update)
  ultimately show ?thesis
    using assms(1) w by (simp add: board_ok_def c)
qed

lemma make_moves_mem:
  "make_moves b is = Inr cs \<Longrightarrow> c \<in> set cs \<Longrightarrow> \<exists>i \<in> set is. make_move b (int i) = Inr c"
  by (induction "is" arbitrary: cs) (auto split: sum.splits)

lemma empty_spots_mem:
  "i \<in> set (empty_spots b) \<longleftrightarrow> i < length (tup b) \<and> tup b ! i = None"
  by (auto simp: empty_spots_def)

lemma find_children_board_mem:
  assumes "find_children_board b = Inr cs" "c \<in> set cs"
  shows "\<not> terminal b \<and> (\<exists>i. i < length (tup b) \<and> tup b ! i = None \<and> make_move b (int i) = Inr c)"
proof -
  from assms have nt: "\<not> terminal b"
    by (auto simp: find_children_board_def split: if_splits)
  with assms obtain ms where "make_moves b (empty_spots b) = Inr ms" "c \<in> set ms"
    by (auto simp: find_children_board_def split: sum.splits)
  from make_moves_mem [OF this] nt show ?thesis
    by (auto simp: empty_spots_mem)
qed

lemma find_random_child_board_Some:
  assumes "find_random_child_board b d = Inr (Some c)"
  shows "\<not> terminal b \<and> (\<exists>i. i < length (tup b) \<and> tup b ! i = None \<and> make_move b (int i) = Inr c)"
proof -
  let ?i = "empty_spots b ! (d mod length (empty_spots b))"
  from assms have nt: "\<not> terminal b" and ne: "empty_spots b \<noteq> []"
      and m: "make_move b (int ?i) = Inr c"
    by (auto simp: find_random_child_board_def split: if_splits sum.splits)
  from ne have "?i \<in> set (empty_spots b)" by simp
  with nt m show ?thesis
    unfolding empty_spots_mem by blast
qed

lemma new_board_ok: "board_ok new_tic_tac_toe_board"
  by code_simp

lemma reachable_board_ok: "reachable_board b \<Longrightarrow> board_ok b"
proof (induction rule: reachable_board.induct)
  case start
  show ?case by (rule new_board_ok)
next
  case (child b cs c)
  from find_children_board_mem [OF child(2,3)] child(4) show ?case
    by (auto intro: make_move_ok)
next
  case (random_child b d c)
  from find_random_child_board_Some [OF random_child(2)] random_child(3) show ?case
    by (auto intro: make_move_ok)
qed

lemma playout_reachable:
  "reachable_board b \<Longrightarrow> playout TicTacToeBoard ds b = Some (plies, c) \<Longrightarrow> reachable_board c"
proof (induction ds arbitrary: b plies)
  case Nil
  then show ?case
    by (subst (asm) playout.simps) (auto split: if_splits)
next
  case (Cons d ds)
  show ?case
  proof (cases "is_terminal TicTacToeBoard b")
    case True
    with Cons.prems show ?thesis
      by (subst (asm) playout.simps) auto
  next
    case False
    with Cons.prems(2) obtain n p where n: "find_random_child TicTacToeBoard b d = Inr (Some n)"
      and p: "playout TicTacToeBoard ds n = Some (p, c)"
      by (subst (asm) playout.simps) (auto split: sum.splits option.splits)
    from n have "find_random_child_board b d = Inr (Some n)"
      by (simp add: TicTacToeBoard_def)
    with Cons.prems(1) have "reachable_board n"
      by (rule reachable_board.random_child)
    from Cons.IH [OF this p] show ?thesis .
  qed
qed

section \<open>The concrete positions\<close>

lemma boards_differ: "board_last_cell \<noteq> board_drawn"
  by (simp add: board_last_cell_def board_drawn_def)

lemma find_children_last_cell: "find_children TicTacToeBoard board_last_cell = Inr [board_drawn]"
  unfolding TicTacToeBoard_def board_last_cell_def board_drawn_def by code_simp

lemma find_children_drawn: "find_children TicTacToeBoard board_drawn = Inr []"
  unfolding TicTacToeBoard_def board_drawn_def by code_simp

lemma simulate_last_cell: "simulate TicTacToeBoard [0] board_last_cell = Some (Inr (1 / 2))"
proof -
  have "playout TicTacToeBoard [0] board_last_cell = Some (1, board_drawn)"
    unfolding board_last_cell_def board_drawn_def by code_simp
  moreover have "reward TicTacToeBoard board_drawn = Inr (1 / 2)"
    unfolding board_drawn_def by code_simp
  ultimately show ?thesis
    using simulate_loop_playout [of TicTacToeBoard "[0]" board_last_cell 1 board_drawn True]
    by (simp add: simulate_def)
qed

lemma simulate_drawn: "simulate TicTacToeBoard [] board_drawn = Some (Inr (1 / 2))"
proof -
  have "playout TicTacToeBoard [] board_drawn = Some (0, board_drawn)"
    unfolding board_drawn_def by code_simp
  moreover have "reward TicTacToeBoard board_drawn = Inr (1 / 2)"
    unfolding board_drawn_def by code_simp
  ultimately show ?thesis
    using simulate_loop_playout [of TicTacToeBoard "[]" board_drawn 0 board_drawn True]
    by (simp add: simulate_def fsub_1_half)
qed

lemma example_rollouts:
  "\<exists>e. do_rollouts TicTacToeBoard (init 1) example_calls = Some e \<and>
     children e board_last_cell = Some [board_drawn] \<and> children e board_drawn = Some [] \<and>
     N e board_last_cell = 2 \<and> N e board_drawn = 1 \<and>
     Q e board_last_cell = 1 \<and> Q e board_drawn = 1 / 2"
  using boards_differ
  by (simp add: example_calls_def do_rollout_def select_def expand_def init_def Let_def
      backpropagate_def pop_def find_children_last_cell find_children_drawn
      simulate_last_cell simulate_drawn fadd_0_left fl_half fsub_1_half fadd_half_half)

lemma example_log:
  "rollout_log TicTacToeBoard (init 1) example_calls =
     [([board_last_cell], 1 / 2), ([board_last_cell, board_drawn], 1 / 2)]"
  using boards_differ
  by (simp add: example_calls_def do_rollout_def select_def expand_def init_def Let_def
      backpropagate_def pop_def find_children_last_cell find_children_drawn
      simulate_last_cell simulate_drawn fadd_0_left fl_half fsub_1_half fadd_half_half)

lemma reachable_x_won: "reachable_board board_x_won"
proof -
  have "playout TicTacToeBoard [0, 2, 0, 1, 0] new_tic_tac_toe_board = Some (5, board_x_won)"
    unfolding board_x_won_def by code_simp
  with reachable_board.start show ?thesis by (rule playout_reachable)
qed

lemma reachable_drawn: "reachable_board board_drawn"
proof -
  have "playout TicTacToeBoard [0, 0, 0, 1, 0, 0, 1, 0, 0] new_tic_tac_toe_board
      = Some (9, board_drawn)"
    unfolding board_drawn_def by code_simp
  with reachable_board.start show ?thesis by (rule playout_reachable)
qed









section \<open>The claims\<close>

text \<open>
  Claim C1, as amended. When the random walk from the leaf reaches a terminal state after
  \<open>plies\<close> advances, \<^verbatim>\<open>_simulate\<close> returns that state's \<^verbatim>\<open>reward()\<close>, inverted to
  \<open>1 - reward\<close> (Python's float subtraction) exactly when \<open>plies\<close> is even (a terminal
  leaf, with no advance, is inverted) and unchanged when \<open>plies\<close> is odd; an error of
  \<^verbatim>\<open>reward()\<close> is passed on. Conversely every value that \<^verbatim>\<open>_simulate\<close> returns arises
  in this way.
\<close>

theorem simulate_parity:
  "(playout g ds leaf = Some (plies, t) \<longrightarrow>
      is_terminal g t \<and>
      simulate g ds leaf =
        Some (case reward g t of
                Inl err \<Rightarrow> Inl err
              | Inr r \<Rightarrow> Inr (if even plies then fsub 1 r else r))) \<and>
   (simulate g ds leaf = Some (Inr v) \<longrightarrow>
      (\<exists>plies t r. playout g ds leaf = Some (plies, t) \<and> reward g t = Inr r \<and>
         v = (if even plies then fsub 1 r else r)))"
  using simulate_loop_playout [of g ds leaf plies t True]
    simulate_loop_playout_conv [of g ds True leaf v]
  unfolding simulate_def by (auto split: sum.splits)

text \<open>
  The claim as written inverts on an odd number of advances. On the board that X has
  won, the walk makes no advance, \<^verbatim>\<open>reward()\<close> is 0 and \<^verbatim>\<open>_simulate\<close> returns 1; one
  move earlier the walk makes one advance and \<^verbatim>\<open>_simulate\<close> returns 0, not inverted.
\<close>

theorem simulate_parity_counterexample:
  "playout TicTacToeBoard [] board_x_won = Some (0, board_x_won) \<and>
   reward TicTacToeBoard board_x_won = Inr 0 \<and>
   simulate TicTacToeBoard [] board_x_won = Some (Inr 1) \<and>
   simulate TicTacToeBoard [] board_x_won \<noteq> Some (Inr 0) \<and>
   playout TicTacToeBoard [0] board_x_to_win = Some (1, board_x_won) \<and>
   simulate TicTacToeBoard [0] board_x_to_win = Some (Inr 0) \<and>
   simulate TicTacToeBoard [0] board_x_to_win \<noteq> Some (Inr 1)"
proof -
  have p1: "playout TicTacToeBoard [0] board_x_to_win = Some (1, board_x_won)"
    unfolding board_x_won_def board_x_to_win_def by code_simp
  have p0: "playout TicTacToeBoard [] board_x_won = Some (0, board_x_won)"
    unfolding board_x_won_def by code_simp
  have r: "reward TicTacToeBoard board_x_won = Inr 0"
    unfolding board_x_won_def by code_simp
  from simulate_loop_playout [OF p0, of True] simulate_loop_playout [OF p1, of True] p0 p1 r
  show ?thesis by (simp add: simulate_def fsub_1_0)
qed

theorem simulate_parity_witness:
  "playout TicTacToeBoard [0] board_x_to_win = Some (1, board_x_won) \<and>
   is_terminal TicTacToeBoard board_x_won \<and>
   reward TicTacToeBoard board_x_won = Inr 0 \<and>
   simulate TicTacToeBoard [0] board_x_to_win = Some (Inr 0) \<and>
   playout TicTacToeBoard [] board_x_won = Some (0, board_x_won) \<and>
   simulate TicTacToeBoard [] board_x_won = Some (Inr 1)"
proof -
  have p1: "playout TicTacToeBoard [0] board_x_to_win = Some (1, board_x_won)"
    unfolding board_x_won_def board_x_to_win_def by code_simp
  have p0: "playout TicTacToeBoard [] board_x_won = Some (0, board_x_won)"
    unfolding board_x_won_def by code_simp
  have r: "reward TicTacToeBoard board_x_won = Inr 0"
    unfolding board_x_won_def by code_simp
  from simulate_parity [where g = TicTacToeBoard and ds = "[0]" and leaf = board_x_to_win
      and plies = 1 and t = board_x_won]
    simulate_parity [where g = TicTacToeBoard and ds = "[]" and leaf = board_x_won
      and plies = 0 and t = board_x_won] p1 p0 r
  show ?thesis by (simp add: fsub_1_0)
qed

text \<open>
  Claim C2, as amended. Backpropagation handles the last state of the path first, adding
  1 to its visit count and the current reward to its accumulated reward, and goes on
  along the rest of the path with the reward flipped to \<open>1 - reward\<close>; the addition and
  the subtraction are Python's float operations. A path that selection returns repeats no
  state, and on such a path the state at distance \<open>i\<close> from the leaf gains exactly one
  visit and the reward flipped \<open>i\<close> times; a state off the path keeps its statistics. For
  a path (root, mid, leaf) the rewards added are \<open>r\<close> at the leaf, \<open>1 - r\<close> at mid and
  \<open>1 - (1 - r)\<close> at the root, which is \<open>r\<close> again when the two subtractions are exact,
  as they are for the rewards 0, 0.5 and 1.
\<close>

theorem backpropagate_flips:
  "backpropagate e (path @ [nd]) r =
     backpropagate (e\<lparr>N := (N e)(nd := N e nd + 1), Q := (Q e)(nd := fadd (Q e nd) r)\<rparr>)
       path (fsub 1 r)
   \<and> (select fuel k e0 rt = Some (Inr path) \<longrightarrow> distinct path)
   \<and> (distinct path \<longrightarrow>
        (\<forall>i < length path.
           N (backpropagate e path r) (rev path ! i) = N e (rev path ! i) + 1 \<and>
           Q (backpropagate e path r) (rev path ! i) =
             fadd (Q e (rev path ! i)) (((\<lambda>x. fsub 1 x) ^^ i) r)))
   \<and> (\<forall>s. s \<notin> set path \<longrightarrow>
        N (backpropagate e path r) s = N e s \<and> Q (backpropagate e path r) s = Q e s)
   \<and> (distinct [rt, mid, leaf] \<longrightarrow>
        Q (backpropagate e [rt, mid, leaf] r) leaf = fadd (Q e leaf) r \<and>
        Q (backpropagate e [rt, mid, leaf] r) mid = fadd (Q e mid) (fsub 1 r) \<and>
        Q (backpropagate e [rt, mid, leaf] r) rt = fadd (Q e rt) (fsub 1 (fsub 1 r)) \<and>
        N (backpropagate e [rt, mid, leaf] r) leaf = N e leaf + 1 \<and>
        N (backpropagate e [rt, mid, leaf] r) mid = N e mid + 1 \<and>
        N (backpropagate e [rt, mid, leaf] r) rt = N e rt + 1)
   \<and> (r = 0 \<or> r = 1 / 2 \<or> r = 1 \<longrightarrow> fsub 1 (fsub 1 r) = r)"
proof (intro conjI impI allI)
  show "backpropagate e (path @ [nd]) r =
     backpropagate (e\<lparr>N := (N e)(nd := N e nd + 1), Q := (Q e)(nd := fadd (Q e nd) r)\<rparr>)
       path (fsub 1 r)"
    by (simp add: backpropagate_def)
next
  assume "select fuel k e0 rt = Some (Inr path)"
  then show "distinct path" by (rule select_distinct)
next
  fix i
  assume d: "distinct path" and i: "i < length path"
  from d i have "rev path ! i \<in> set path"
    by (metis length_rev nth_mem set_rev)
  with d show "N (backpropagate e path r) (rev path ! i) = N e (rev path ! i) + 1"
    by (simp add: backpropagate_N count_list_distinct)
  show "Q (backpropagate e path r) (rev path ! i) =
      fadd (Q e (rev path ! i)) (((\<lambda>x. fsub 1 x) ^^ i) r)"
    using recorded_distinct [OF d i, of r] by (simp add: backpropagate_Q flipped_def)
next
  fix s
  assume "s \<notin> set path"
  then show "N (backpropagate e path r) s = N e s"
    by (simp add: backpropagate_N)
  show "Q (backpropagate e path r) s = Q e s"
    using recorded_notin [OF \<open>s \<notin> set path\<close>, of r] by (simp add: backpropagate_Q)
next
  assume "r = 0 \<or> r = 1 / 2 \<or> r = 1"
  then show "fsub 1 (fsub 1 r) = r"
    by (elim disjE) (simp_all only: fsub_1_0 fsub_1_1 fsub_1_half)
qed (auto simp: backpropagate_def)

text \<open>
  The claim as written gives the root of a path of length 3 the reward \<open>R\<close> itself. For
  \<open>R\<close> the double nearest to 0.1 (3602879701896397 / 2^55), the reward added at mid is
  the double nearest to 0.9 and the reward added at the root, to an accumulated reward of
  0, is 900719925474099 / 2^53, which Python prints as 0.09999999999999998.
\<close>

theorem backpropagate_flips_counterexample:
  "distinct [board_x_to_win, board_last_cell, board_drawn] \<and>
   fl (3602879701896397 / 36028797018963968) = 3602879701896397 / 36028797018963968 \<and>
   Q (backpropagate (init 1) [board_x_to_win, board_last_cell, board_drawn]
        (3602879701896397 / 36028797018963968)) board_drawn
     = 3602879701896397 / 36028797018963968 \<and>
   Q (backpropagate (init 1) [board_x_to_win, board_last_cell, board_drawn]
        (3602879701896397 / 36028797018963968)) board_last_cell
     = 8106479329266893 / 9007199254740992 \<and>
   Q (backpropagate (init 1) [board_x_to_win, board_last_cell, board_drawn]
        (3602879701896397 / 36028797018963968)) board_x_to_win
     = 900719925474099 / 9007199254740992 \<and>
   Q (backpropagate (init 1) [board_x_to_win, board_last_cell, board_drawn]
        (3602879701896397 / 36028797018963968)) board_x_to_win
     \<noteq> 3602879701896397 / 36028797018963968"
proof -
  have d: "distinct [board_x_to_win, board_last_cell, board_drawn]"
      "board_drawn \<noteq> board_last_cell" "board_drawn \<noteq> board_x_to_win"
      "board_last_cell \<noteq> board_x_to_win"
    by (simp_all add: board_x_to_win_def board_last_cell_def board_drawn_def)
  have a: "fl (8106479329266893 / 9007199254740992) = 8106479329266893 / 9007199254740992"
    by (subst fl_below [of 53]) (simp_all add: round_even_def)
  have b: "fl (900719925474099 / 9007199254740992) = 900719925474099 / 9007199254740992"
    by (subst fl_below [of 56]) (simp_all add: round_even_def)
  from d show ?thesis
    by (simp add: backpropagate_def init_def fadd_0_left fl_tenth fsub_1_tenth
        fsub_1_nine_tenths a b)
qed

theorem backpropagate_flips_witness:
  "select 1 0 (init 1) board_last_cell = Some (Inr [board_last_cell]) \<and>
   distinct [board_last_cell] \<and>
   distinct [board_x_to_win, board_last_cell, board_drawn] \<and>
   Q (backpropagate (init 1) [board_x_to_win, board_last_cell, board_drawn] (1 / 2)) board_drawn
     = 1 / 2 \<and>
   Q (backpropagate (init 1) [board_x_to_win, board_last_cell, board_drawn] (1 / 2)) board_last_cell
     = 1 / 2 \<and>
   Q (backpropagate (init 1) [board_x_to_win, board_last_cell, board_drawn] (1 / 2)) board_x_to_win
     = 1 / 2 \<and>
   Q (backpropagate (init 1) [board_x_to_win, board_last_cell, board_drawn] 1) board_drawn
     = 1 \<and>
   Q (backpropagate (init 1) [board_x_to_win, board_last_cell, board_drawn] 1) board_last_cell
     = 0 \<and>
   Q (backpropagate (init 1) [board_x_to_win, board_last_cell, board_drawn] 1) board_x_to_win
     = 1 \<and>
   N (backpropagate (init 1) [board_x_to_win, board_last_cell, board_drawn] 1) board_drawn = 1 \<and>
   N (backpropagate (init 1) [board_x_to_win, board_last_cell, board_drawn] 1) board_x_won = 0"
proof -
  have d: "distinct [board_x_to_win, board_last_cell, board_drawn]"
    by (simp add: board_x_to_win_def board_last_cell_def board_drawn_def)
  have n: "board_x_won \<notin> set [board_x_to_win, board_last_cell, board_drawn]"
    by (simp add: board_x_won_def board_x_to_win_def board_last_cell_def board_drawn_def)
  have s: "select 1 0 (init 1) board_last_cell = Some (Inr [board_last_cell])"
    by (simp add: select_def init_def)
  from backpropagate_flips [where e = "init 1" and r = "1 / 2" and rt = board_x_to_win
      and mid = board_last_cell and leaf = board_drawn
      and path = "[board_x_to_win, board_last_cell, board_drawn]"]
    backpropagate_flips [where e = "init 1" and r = 1 and rt = board_x_to_win
      and mid = board_last_cell and leaf = board_drawn
      and path = "[board_x_to_win, board_last_cell, board_drawn]"]
    backpropagate_flips [where path = "[board_last_cell]" and fuel = 1 and k = 0
      and ?e0.0 = "init 1" and rt = board_last_cell] d n s
  show ?thesis
    by (simp add: init_def fadd_0_left fl_half fl_0 fl_1 fsub_1_half fsub_1_0 fsub_1_1)
qed




text \<open>
  Claim C4. In any iteration of \<^verbatim>\<open>_select\<close>, when the current state has a registered
  child that is not a key of the children registry, the loop appends one such child to
  the path and returns, whatever the statistics are. \<^verbatim>\<open>_uct_select\<close> is called only
  when no child is unexpanded, so its assertion holds there, and \<^verbatim>\<open>_select\<close> never ends
  with an \<^verbatim>\<open>AssertionError\<close>.
\<close>

theorem select_frontier_first:
  "(children e nd = Some cs \<and> filter (\<lambda>c. children e c = None) cs \<noteq> [] \<longrightarrow>
      select_loop (Suc fuel) k e path nd =
        Some (Inr (path @ [nd, pop k (filter (\<lambda>c. children e c = None) cs)])) \<and>
      pop k (filter (\<lambda>c. children e c = None) cs) \<in> set cs \<and>
      children e (pop k (filter (\<lambda>c. children e c = None) cs)) = None) \<and>
   select_loop fuel k e path nd \<noteq> Some (Inl AssertionError) \<and>
   select fuel k e nd \<noteq> Some (Inl AssertionError) \<and>
   (children e nd = Some cs \<and> filter (\<lambda>c. children e c = None) cs = [] \<longrightarrow>
      uct_select e nd \<noteq> Inl AssertionError)"
proof (intro conjI impI)
  assume a: "children e nd = Some cs \<and> filter (\<lambda>c. children e c = None) cs \<noteq> []"
  then have m: "pop k (filter (\<lambda>c. children e c = None) cs)
      \<in> set (filter (\<lambda>c. children e c = None) cs)"
    by (intro pop_mem) simp
  from a have "cs \<noteq> []" by auto
  with a show "select_loop (Suc fuel) k e path nd =
      Some (Inr (path @ [nd, pop k (filter (\<lambda>c. children e c = None) cs)]))"
    by (simp add: Let_def)
  from m show "pop k (filter (\<lambda>c. children e c = None) cs) \<in> set cs"
    by simp
  from m show "children e (pop k (filter (\<lambda>c. children e c = None) cs)) = None"
    by simp
next
  show "select_loop fuel k e path nd \<noteq> Some (Inl AssertionError)"
    by (rule select_loop_no_assertion)
  show "select fuel k e nd \<noteq> Some (Inl AssertionError)"
    unfolding select_def by (rule select_loop_no_assertion)
next
  assume "children e nd = Some cs \<and> filter (\<lambda>c. children e c = None) cs = []"
  then show "uct_select e nd \<noteq> Inl AssertionError"
    by (auto simp: uct_select_def filter_empty_conv max_key_def split: list.splits)
qed

theorem select_frontier_first_witness:
  "select_loop (Suc 0) 0 ((init 1)\<lparr>children := [board_last_cell \<mapsto> [board_drawn]]\<rparr>) []
     board_last_cell = Some (Inr [board_last_cell, board_drawn]) \<and>
   (\<exists>e. do_rollouts TicTacToeBoard (init 1) example_calls = Some e \<and>
      children e board_last_cell = Some [board_drawn] \<and>
      filter (\<lambda>c. children e c = None) [board_drawn] = [] \<and>
      uct_select e board_last_cell \<noteq> Inl AssertionError \<and>
      select 2 0 e board_last_cell \<noteq> Some (Inl AssertionError))"
proof -
  let ?e = "(init 1)\<lparr>children := [board_last_cell \<mapsto> [board_drawn]]\<rparr>"
  have a: "children ?e board_last_cell = Some [board_drawn] \<and>
      filter (\<lambda>c. children ?e c = None) [board_drawn] \<noteq> []"
    using boards_differ by (simp add: init_def)
  from select_frontier_first [where e = ?e and nd = board_last_cell and cs = "[board_drawn]"
      and fuel = 0 and k = 0 and path = "[]"] a
  have 1: "select_loop (Suc 0) 0 ?e [] board_last_cell = Some (Inr [board_last_cell, board_drawn])"
    using boards_differ by (simp add: pop_def init_def)
  from example_rollouts obtain e where e: "do_rollouts TicTacToeBoard (init 1) example_calls = Some e"
      "children e board_last_cell = Some [board_drawn]" "children e board_drawn = Some []"
    by blast
  from select_frontier_first [where e = e and nd = board_last_cell and cs = "[board_drawn]"
      and fuel = 2 and k = 0 and path = "[]"] e
  have "uct_select e board_last_cell \<noteq> Inl AssertionError \<and>
      select 2 0 e board_last_cell \<noteq> Some (Inl AssertionError)"
    by simp
  with 1 e show ?thesis by auto
qed

text \<open>
  Claim C5. In an engine reached from a fresh one by \<^verbatim>\<open>do_rollout\<close> calls that all
  returned, a state whose registered children are all expanded (the states on which
  \<^verbatim>\<open>_select\<close> calls \<^verbatim>\<open>_uct_select\<close>) has been visited at least once, and so has each
  of its children: the logarithm and the divisions of the UCT score are defined,
  \<^verbatim>\<open>_uct_select\<close> returns a child, and \<^verbatim>\<open>_select\<close> raises nothing.
\<close>

theorem uct_select_visits_positive:
  assumes "do_rollouts g (init w) calls = Some e"
    and "children e nd = Some cs" and "\<forall>c \<in> set cs. children e c \<noteq> None"
  shows "1 \<le> N e nd \<and> (\<forall>c \<in> set cs. 1 \<le> N e c) \<and>
     (cs \<noteq> [] \<longrightarrow> (\<exists>n. uct_select e nd = Inr n \<and> n \<in> set cs)) \<and>
     (\<forall>fuel k rt err. select fuel k e rt \<noteq> Some (Inl err))"
proof -
  have v: "visited_keys e"
    using assms(1) by (rule do_rollouts_visited_keys)
  have "\<exists>n. uct_select e nd = Inr n \<and> n \<in> set cs" if "cs \<noteq> []"
  proof -
    from that assms(2,3) have "descends e nd"
      by (auto simp: descends_def filter_empty_conv)
    from uct_select_ok [OF v this] obtain n where n: "uct_select e nd = Inr n" ..
    from uct_select_Inr [OF n] assms(2) n show ?thesis by auto
  qed
  moreover have "select fuel k e rt \<noteq> Some (Inl err)" for fuel k rt err
    unfolding select_def using v by (rule select_loop_no_error)
  ultimately show ?thesis
    using v assms(2,3) unfolding visited_keys_def by fastforce
qed

theorem uct_select_visits_positive_witness:
  "\<exists>e. do_rollouts TicTacToeBoard (init 1) example_calls = Some e \<and>
     children e board_last_cell = Some [board_drawn] \<and>
     children e board_drawn \<noteq> None \<and>
     1 \<le> N e board_last_cell \<and> 1 \<le> N e board_drawn \<and>
     uct_select e board_last_cell = Inr board_drawn \<and>
     select 2 0 e board_last_cell = Some (Inr [board_last_cell, board_drawn])"
proof -
  from example_rollouts obtain e where e: "do_rollouts TicTacToeBoard (init 1) example_calls = Some e"
      "children e board_last_cell = Some [board_drawn]" "children e board_drawn = Some []"
    by blast
  from e(3) have c: "\<forall>c \<in> set [board_drawn]. children e c \<noteq> None"
    by simp
  from uct_select_visits_positive [OF e(1,2) c]
  have u: "1 \<le> N e board_last_cell" "1 \<le> N e board_drawn"
      "uct_select e board_last_cell = Inr board_drawn"
    by auto
  with e have "select 2 0 e board_last_cell = Some (Inr [board_last_cell, board_drawn])"
    by (simp add: select_def numeral_2_eq_2)
  with e u show ?thesis by auto
qed

text \<open>
  Claim C6. On a terminal state \<^verbatim>\<open>choose\<close> raises \<^verbatim>\<open>RuntimeError\<close>, whatever the
  engine holds and with no fallback (the function assigns no field of the engine, so the
  model returns no engine). On a non-terminal state that is not a key of the children
  registry it returns what the state's \<^verbatim>\<open>find_random_child()\<close> returns.
\<close>

theorem choose_terminal_or_unexpanded:
  "(is_terminal g nd \<longrightarrow> choose_mcts g e d nd = Inl RuntimeError) \<and>
   (\<not> is_terminal g nd \<and> children e nd = None \<longrightarrow>
      choose_mcts g e d nd = find_random_child g nd d)"
  by (simp add: choose_mcts_def)

theorem choose_terminal_or_unexpanded_witness:
  "is_terminal TicTacToeBoard board_x_won \<and>
   choose_mcts TicTacToeBoard (init 1) 0 board_x_won = Inl RuntimeError \<and>
   \<not> is_terminal TicTacToeBoard board_x_to_win \<and>
   children (init 1) board_x_to_win = None \<and>
   choose_mcts TicTacToeBoard (init 1) 0 board_x_to_win = Inr (Some board_x_won)"
proof -
  have t: "is_terminal TicTacToeBoard board_x_won" "\<not> is_terminal TicTacToeBoard board_x_to_win"
    by (simp_all add: TicTacToeBoard_def is_terminal_board_def board_x_won_def board_x_to_win_def)
  have f: "find_random_child TicTacToeBoard board_x_to_win 0 = Inr (Some board_x_won)"
    unfolding TicTacToeBoard_def board_x_won_def board_x_to_win_def by code_simp
  have c: "children (init 1) board_x_to_win = None"
    by (simp add: init_def)
  from choose_terminal_or_unexpanded [where g = TicTacToeBoard and nd = board_x_won
      and e = "init 1" and d = 0]
    choose_terminal_or_unexpanded [where g = TicTacToeBoard and nd = board_x_to_win
      and e = "init 1" and d = 0] t f c
  show ?thesis by simp
qed

text \<open>
  Claim C7. After a sequence of \<^verbatim>\<open>do_rollout\<close> calls from a fresh engine, the visit
  count of a state is the number of rollouts of the sequence whose selected path contains
  the state, and its accumulated reward is the sum of the rewards those rollouts recorded
  for it, added up from 0 in the order of the rollouts by Python's float addition. Every
  selected path repeats no state, so a rollout records for the state at distance \<open>i\<close>
  from its leaf the single value that \<open>i\<close> flips make of its simulated reward, and
  nothing for a state off its path.
\<close>

theorem visits_count_rollouts:
  assumes "do_rollouts g (init w) calls = Some e"
  shows "N e s = length (filter (\<lambda>(path, r). s \<in> set path) (rollout_log g (init w) calls)) \<and>
     Q e s = foldl fadd 0
       (concat (map (\<lambda>(path, r). recorded path r s) (rollout_log g (init w) calls))) \<and>
     (\<forall>(path, r) \<in> set (rollout_log g (init w) calls).
        distinct path \<and>
        (\<forall>i < length path. recorded path r (rev path ! i) = [((\<lambda>x. fsub 1 x) ^^ i) r]) \<and>
        (s \<notin> set path \<longrightarrow> recorded path r s = [])) \<and>
     length (rollout_log g (init w) calls) = length calls"
proof -
  from do_rollouts_log [OF assms, of s]
  have "N e s = length (filter (\<lambda>(path, r). s \<in> set path) (rollout_log g (init w) calls))"
    "Q e s = foldl fadd 0
       (concat (map (\<lambda>(path, r). recorded path r s) (rollout_log g (init w) calls)))"
    "\<forall>(path, r) \<in> set (rollout_log g (init w) calls). distinct path"
    "length (rollout_log g (init w) calls) = length calls"
    by (simp_all add: init_def)
  moreover have "distinct path \<Longrightarrow>
      (\<forall>i < length path. recorded path r (rev path ! i) = [((\<lambda>x. fsub 1 x) ^^ i) r]) \<and>
      (s \<notin> set path \<longrightarrow> recorded path r s = [])" for path r
    using recorded_distinct [of path _ r] recorded_notin [of s path r]
    by (simp add: flipped_def)
  ultimately show ?thesis
    by (intro conjI) (assumption, assumption, fast, assumption)
qed

theorem visits_count_rollouts_witness:
  "\<exists>e. do_rollouts TicTacToeBoard (init 1) example_calls = Some e \<and>
     rollout_log TicTacToeBoard (init 1) example_calls =
       [([board_last_cell], 1 / 2), ([board_last_cell, board_drawn], 1 / 2)] \<and>
     N e board_last_cell = 2 \<and> N e board_drawn = 1 \<and>
     Q e board_last_cell = foldl fadd 0 [1 / 2, fsub 1 (1 / 2)] \<and>
     Q e board_last_cell = 1 \<and>
     Q e board_drawn = foldl fadd 0 [1 / 2] \<and>
     Q e board_drawn = 1 / 2"
proof -
  from example_rollouts obtain e where e: "do_rollouts TicTacToeBoard (init 1) example_calls = Some e"
      "Q e board_last_cell = 1" "Q e board_drawn = 1 / 2"
    by blast
  note v1 = visits_count_rollouts [OF e(1), of board_last_cell]
  note v2 = visits_count_rollouts [OF e(1), of board_drawn]
  from v1 [THEN conjunct1]
  have 1: "N e board_last_cell = 2"
    by (simp add: example_log)
  from v2 [THEN conjunct1] boards_differ
  have 2: "N e board_drawn = 1"
    by (simp add: example_log)
  have r1: "recorded [board_last_cell] (1 / 2) board_last_cell = [1 / 2]"
      "recorded [board_last_cell, board_drawn] (1 / 2) board_last_cell = [fsub 1 (1 / 2)]"
      "recorded [board_last_cell] (1 / 2) board_drawn = []"
      "recorded [board_last_cell, board_drawn] (1 / 2) board_drawn = [1 / 2]"
    using boards_differ by (simp_all add: recorded_def flipped_def upt_conv_Cons)
  from v1 [THEN conjunct2, THEN conjunct1]
  have 3: "Q e board_last_cell = foldl fadd 0 [1 / 2, fsub 1 (1 / 2)]"
    by (simp add: example_log r1)
  from v2 [THEN conjunct2, THEN conjunct1]
  have 4: "Q e board_drawn = foldl fadd 0 [1 / 2]"
    by (simp add: example_log r1)
  from 1 2 3 4 e show ?thesis by (simp add: example_log)
qed

text \<open>
  Claim C8. When \<^verbatim>\<open>reward()\<close> lies in the interval from 0 to 1 on every terminal
  state, then after any sequence of \<^verbatim>\<open>do_rollout\<close> calls from a fresh engine every state
  with a positive visit count has an average reward between 0 and 1: both the exact
  quotient of the accumulated reward by the visit count and the float quotient that
  Python computes for it.
\<close>

theorem average_reward_in_unit_range:
  assumes "\<forall>s r. is_terminal g s \<longrightarrow> reward g s = Inr r \<longrightarrow> 0 \<le> r \<and> r \<le> 1"
    and "do_rollouts g (init w) calls = Some e" and "0 < N e s"
  shows "0 \<le> Q e s / real (N e s) \<and> Q e s / real (N e s) \<le> 1 \<and>
     0 \<le> fdiv (Q e s) (fl (real (N e s))) \<and> fdiv (Q e s) (fl (real (N e s))) \<le> 1"
proof -
  have "unit_range e"
    using assms(2)
  proof (rule do_rollouts_invariant)
    show "unit_range (init w)"
      by (simp add: unit_range_def init_def)
  next
    fix e1 nd fuel k ds e2
    assume "unit_range e1" "do_rollout g fuel k ds e1 nd = Some (Inr e2)"
    with assms(1) show "unit_range e2"
      by (intro do_rollout_unit_range [of g e1 fuel k ds nd e2]) auto
  qed
  then have q: "0 \<le> Q e s" "Q e s \<le> real (N e s)" "Q e s \<le> 2 ^ 53"
    by (simp_all add: unit_range_def)
  with assms(3) have "0 \<le> Q e s / real (N e s) \<and> Q e s / real (N e s) \<le> 1"
    by (simp add: divide_le_eq)
  with fdiv_unit [OF q assms(3)] show ?thesis
    by simp
qed

theorem average_reward_in_unit_range_witness:
  "\<exists>e. do_rollouts TicTacToeBoard (init 1) example_calls = Some e \<and>
     is_terminal TicTacToeBoard board_drawn \<and>
     reward TicTacToeBoard board_drawn = Inr (1 / 2) \<and>
     0 < N e board_last_cell \<and>
     0 \<le> Q e board_last_cell / real (N e board_last_cell) \<and>
     Q e board_last_cell / real (N e board_last_cell) \<le> 1 \<and>
     0 \<le> fdiv (Q e board_last_cell) (fl (real (N e board_last_cell))) \<and>
     fdiv (Q e board_last_cell) (fl (real (N e board_last_cell))) \<le> 1"
proof -
  from example_rollouts obtain e where e: "do_rollouts TicTacToeBoard (init 1) example_calls = Some e"
      "N e board_last_cell = 2"
    by blast
  have r: "\<forall>s r. is_terminal TicTacToeBoard s \<longrightarrow> reward TicTacToeBoard s = Inr r \<longrightarrow>
      0 \<le> r \<and> r \<le> 1"
    by (auto simp: TicTacToeBoard_def reward_board_def split: if_splits)
  have n: "0 < N e board_last_cell"
    using e(2) by simp
  have t: "is_terminal TicTacToeBoard board_drawn"
      "reward TicTacToeBoard board_drawn = Inr (1 / 2)"
    by (simp_all add: TicTacToeBoard_def is_terminal_board_def reward_board_def board_drawn_def)
  from average_reward_in_unit_range [OF r e(1) n] e(1) n t show ?thesis
    by blast
qed

text \<open>
  Claim C9. \<^verbatim>\<open>_expand\<close> on a state that is already a key of the children registry
  returns the engine as it is, whatever \<^verbatim>\<open>find_children()\<close> would give (it is not
  consulted); so expanding a state a second time changes nothing, and the registered
  children of an expanded state stay as they are.
\<close>

theorem expand_idempotent:
  "(children e s \<noteq> None \<longrightarrow>
      expand g e s = Inr e \<and> (\<forall>f. expand (g\<lparr>find_children := f\<rparr>) e s = Inr e)) \<and>
   (expand g e s = Inr e1 \<longrightarrow> expand g e1 s = Inr e1 \<and> children e1 s \<noteq> None \<and>
      (\<forall>cs. children e s = Some cs \<longrightarrow> children e1 s = Some cs))"
  by (auto simp: expand_def split: sum.splits if_splits)

theorem expand_idempotent_witness:
  "\<exists>e. expand TicTacToeBoard (init 1) board_last_cell = Inr e \<and>
     children e board_last_cell = Some [board_drawn] \<and>
     expand TicTacToeBoard e board_last_cell = Inr e \<and>
     expand (TicTacToeBoard\<lparr>find_children := (\<lambda>_. Inl RuntimeError)\<rparr>) e board_last_cell = Inr e"
proof -
  let ?e = "(init 1)\<lparr>children := [board_last_cell \<mapsto> [board_drawn]]\<rparr>"
  have 1: "expand TicTacToeBoard (init 1) board_last_cell = Inr ?e"
    by (simp add: expand_def find_children_last_cell init_def)
  have 2: "children ?e board_last_cell = Some [board_drawn]"
    by simp
  from expand_idempotent [where e = ?e and s = board_last_cell and g = TicTacToeBoard] 1 2
  show ?thesis by auto
qed

text \<open>
  Claim C10, as amended. On every terminal board of a game, that is a board reached from
  the initial board by the moves that \<^verbatim>\<open>find_children\<close> and \<^verbatim>\<open>find_random_child\<close>
  make (\<^verbatim>\<open>make_move\<close> on an empty cell of a board that is not terminal),
  \<^verbatim>\<open>reward()\<close> returns 0 when the board has a winner and 0.5 when it is drawn; it never
  returns 1, and the winner is never the player whose turn it is.
\<close>

theorem reward_board_reachable:
  assumes "reachable_board b" and "terminal b"
  shows "(winner b \<noteq> None \<longrightarrow> reward_board b = Inr 0) \<and>
     (winner b = None \<longrightarrow> reward_board b = Inr (1 / 2)) \<and>
     reward_board b \<noteq> Inr 1 \<and> winner b \<noteq> Some (turn b)"
proof -
  from assms(1) have ok: "board_ok b" by (rule reachable_board_ok)
  have "\<not> turn b" if "winner b = None"
  proof -
    from that ok assms(2) have "None \<notin> set (tup b)" by (simp add: board_ok_def)
    then have "filled (tup b) = 9" using ok by (simp add: filled_full board_ok_def)
    with ok show ?thesis by (simp add: board_ok_def)
  qed
  with ok assms(2) show ?thesis
    by (cases "winner b") (auto simp: reward_board_def board_ok_def)
qed

text \<open>
  \<^verbatim>\<open>make_move\<close> itself checks neither the cell nor the end of the game. A move made
  after X has won gives a terminal board whose winner is the player to move, on which
  \<^verbatim>\<open>reward()\<close> raises; a move onto a taken cell shifts the turn, and the drawn board
  that follows gets the reward 0; and so does the drawn board at the end of a game whose
  first move went to index -1.
\<close>

theorem reward_board_counterexample:
  "make_move_calls new_tic_tac_toe_board [0, 3, 1, 4, 2, 5] = Inr board_moved_after_win \<and>
   terminal board_moved_after_win \<and> winner board_moved_after_win = Some True \<and>
   reward_board board_moved_after_win = Inl RuntimeError \<and>
   make_move_calls new_tic_tac_toe_board [0, 1, 2, 4, 3, 5, 7, 6, 7, 8]
     = Inr board_overwritten_draw \<and>
   terminal board_overwritten_draw \<and> winner board_overwritten_draw = None \<and>
   reward_board board_overwritten_draw = Inr 0 \<and>
   reward_board board_overwritten_draw \<noteq> Inr (1 / 2) \<and>
   make_move_calls new_tic_tac_toe_board
     [-1, 1, 0, 4, 2, 5, 3, 6, 7, 9, 10, 11, 12, 13, 14, 15, 16, 17]
     = Inr board_outside_grid_draw \<and>
   terminal board_outside_grid_draw \<and> winner board_outside_grid_draw = None \<and>
   reward_board board_outside_grid_draw = Inr 0"
  unfolding board_moved_after_win_def board_overwritten_draw_def board_outside_grid_draw_def
  by code_simp

theorem reward_board_reachable_witness:
  "reachable_board board_x_won \<and> terminal board_x_won \<and> winner board_x_won = Some True \<and>
   reward_board board_x_won = Inr 0 \<and>
   reachable_board board_drawn \<and> terminal board_drawn \<and> winner board_drawn = None \<and>
   reward_board board_drawn = Inr (1 / 2)"
proof -
  have t: "terminal board_x_won" "winner board_x_won = Some True"
      "terminal board_drawn" "winner board_drawn = None"
    by (simp_all add: board_x_won_def board_drawn_def)
  from reward_board_reachable [OF reachable_x_won t(1)]
    reward_board_reachable [OF reachable_drawn t(3)] t reachable_x_won reachable_drawn
  show ?thesis by simp
qed

end
